theory Spec2Isabelle
  imports Main "HOL-Library.AList" "HOL-Library.Char_ord" "HOL-Library.List_Lexorder"
begin

section \<open>Container reconciler (package container): data\<close>

text \<open>
  A \<open>containersState\<close> is a Go map from names to pointers to
  \<open>hostConfiguredContainer\<close> values, and Go maps are themselves references:
  \<open>c.currentState = c.previousState\<close> makes two fields denote one map, and
  \<open>c.currentState[n] = d\<close> makes an entry of the current state denote the very
  object the desired state holds. Both kinds of sharing are kept: the world has a
  store of map objects (\<open>maps\<close>) and a store of container objects (\<open>objs\<close>).
  A validated state holds no nil pointer, so an entry is an address.

  The host descriptor and the container configuration are only ever compared
  (\<open>cmp.Diff\<close>), so each is represented by a string. \<open>configFiles\<close> is a
  \<open>map[string]string\<close>, represented by an association list that is read through
  \<open>map_of\<close>; \<open>AList.clearjunk\<close> lists every key once with the value the map holds.
\<close>

type_synonym name = string
type_synonym addr = nat
type_synonym mref = nat

record status =
  stExists :: bool
  stRunning :: bool

record hcc =
  host :: string
  config :: string
  status :: status
  configFiles :: "(string \<times> string) list"

text \<open>
  The calls that the reconciler issues to the operations of
  \<open>hostConfiguredContainer\<close> and \<open>containersState\<close>, which reach the hosts. The
  world records every call issued, in order.
\<close>

datatype call =
    CallStatus addr
  | CallConfigure addr "string list"
  | CallStart addr
  | CallCreateAndStart name
  | CallRemoveContainer name

datatype error =
    Failed call
  | NoCurrentState
  | StartNonExisting
  | UpdateNonExisting name
  | UpdateScheduledForRemoval name
  | NoSuchContainer name
  | NilDereference
  | NoStateDefined
  | NoContainersDefined
  | InvalidContainer name
  | ParseError
  | ValidateError "error list"
  | Wrapped string error

text \<open>
  \<open>Failed k\<close>: the call \<open>k\<close> reported a transport or runtime error.
  \<open>NoCurrentState\<close>: "can't execute without knowing current state of the containers".
  \<open>StartNonExisting\<close>: "can't start non-existing container".
  \<open>UpdateNonExisting n\<close>: "can't update non-existing container 'n'".
  \<open>UpdateScheduledForRemoval n\<close>: "can't update container 'n', which is scheduler for removal".
  \<open>NoStateDefined\<close>: "either current state or desired state must be defined".
  \<open>NoContainersDefined\<close>: "either current state or desired state should have containers defined".
  \<open>Wrapped msg e\<close>: \<open>fmt.Errorf("msg: %w", e)\<close>; the messages are the source's, with
  "can't" written "cannot" and without the name that some of them append.
  \<open>NilDereference\<close>: the panic of a nil pointer dereference.
\<close>

record world =
  maps :: "mref \<Rightarrow> name \<rightharpoonup> addr"
  objs :: "addr \<Rightarrow> hcc"
  trace :: "call list"

text \<open>
  The hosts are outside the program. \<open>fails E t k\<close> says whether the call \<open>k\<close>,
  issued after the calls \<open>t\<close>, reports an error; \<open>observe E t a h\<close> is the status
  and the file contents that a refresh of the container object \<open>h\<close> at address
  \<open>a\<close> reads back from its host.
\<close>

record env =
  fails :: "call list \<Rightarrow> call \<Rightarrow> bool"
  observe :: "call list \<Rightarrow> addr \<Rightarrow> hcc \<Rightarrow> status \<times> (string \<times> string) list"

text \<open>The validated engine \<open>containers\<close>; \<open>None\<close> is the nil map.\<close>

record containers =
  previousState :: mref
  currentState :: "mref option"
  desiredState :: mref

subsection \<open>Methods that return an error and update the state\<close>

type_synonym action = "world \<Rightarrow> error option \<times> world"

definition andThen :: "action \<Rightarrow> action \<Rightarrow> action" where
  "andThen f g w = (case f w of (None, w') \<Rightarrow> g w' | (Some e, w') \<Rightarrow> (Some e, w'))"

definition wrapErr :: "string \<Rightarrow> action \<Rightarrow> action" where
  "wrapErr msg f w =
     (case f w of (None, w') \<Rightarrow> (None, w') | (Some e, w') \<Rightarrow> (Some (Wrapped msg e), w'))"

text \<open>
  \<open>for k := range m { body }\<close>, where the body returns from the function on an
  error. The list is the order in which the runtime produces the keys; a body
  starts by looking its key up, because a key that is no longer in the map when
  its turn comes is not produced. A key that is stored again while the loop
  runs may be produced once more or not: a list may name a key twice.
\<close>

fun forEach :: "(name \<Rightarrow> action) \<Rightarrow> name list \<Rightarrow> action" where
  "forEach body [] w = (None, w)"
| "forEach body (k # ks) w = andThen (body k) (forEach body ks) w"

definition setEntry :: "mref \<Rightarrow> name \<Rightarrow> addr option \<Rightarrow> world \<Rightarrow> world" where
  "setEntry s n v w = w\<lparr>maps := (maps w)(s := (maps w s)(n := v))\<rparr>"

definition updObj :: "addr \<Rightarrow> (hcc \<Rightarrow> hcc) \<Rightarrow> world \<Rightarrow> world" where
  "updObj a g w = w\<lparr>objs := (objs w)(a := g (objs w a))\<rparr>"

definition prim :: "env \<Rightarrow> call \<Rightarrow> action" where
  "prim E k w =
     ((if fails E (trace w) k then Some (Failed k) else None), w\<lparr>trace := trace w @ [k]\<rparr>)"

subsection \<open>Operations of hostConfiguredContainer and containersState\<close>

text \<open>
  Modelled from the spec: the methods \<open>Exists\<close> and \<open>IsRunning\<close> of the container
  (their file is not among the sources). The spec's status carries
  \<open>{exists, running}\<close>, and Pass 1 reads \<open>Status.Exists\<close> and \<open>Status.Running\<close>.
\<close>

definition Exists :: "hcc \<Rightarrow> bool" where
  "Exists h = stExists (status h)"

definition IsRunning :: "hcc \<Rightarrow> bool" where
  "IsRunning h = stRunning (status h)"

text \<open>
  Modelled from the spec: \<open>hostConfiguredContainer.Configure(paths)\<close> (missing).
  It writes exactly the given files to the host; the record of the container is
  not touched (the caller assigns \<open>configFiles\<close> afterwards).
\<close>

definition Configure :: "env \<Rightarrow> addr \<Rightarrow> string list \<Rightarrow> action" where
  "Configure E a paths = prim E (CallConfigure a paths)"

text \<open>
  Modelled from the spec: \<open>hostConfiguredContainer.Start()\<close> (missing). The
  runtime is asked to start the container; when it reports no error the
  container is running, and the record says so (the spec's START leads a
  stopped container to the running states, and a run that follows finds
  nothing to start).
\<close>

definition Start :: "env \<Rightarrow> addr \<Rightarrow> action" where
  "Start E a =
     andThen (prim E (CallStart a))
       (\<lambda>w'. (None, updObj a (\<lambda>h. h\<lparr>status := (status h)\<lparr>stRunning := True\<rparr>\<rparr>) w'))"

text \<open>
  Modelled from the spec: \<open>containersState.CheckState()\<close> (missing). Every entry is
  refreshed: its status is probed and its configuration files are read back; the
  first failing query ends the call.
\<close>

definition refresh :: "env \<Rightarrow> addr \<Rightarrow> action" where
  "refresh E a w =
     andThen (prim E (CallStatus a))
       (\<lambda>w'. (None, updObj a (\<lambda>h. h\<lparr>status := fst (observe E (trace w) a h),
                                    configFiles := snd (observe E (trace w) a h)\<rparr>) w')) w"

definition CheckState :: "env \<Rightarrow> mref \<Rightarrow> name list \<Rightarrow> action" where
  "CheckState E s ks =
     forEach (\<lambda>i w. case maps w s i of
                       None \<Rightarrow> (None, w)
                     | Some a \<Rightarrow> wrapErr ''failed checking container state'' (refresh E a) w) ks"

text \<open>
  Modelled from the spec: \<open>containersState.CreateAndStart(name)\<close> (missing). The
  named container is materialised on its host (files pushed, container created
  and started) and the returned status is recorded in its object. A name the
  mapping does not hold is an error.
\<close>

definition CreateAndStart :: "env \<Rightarrow> mref \<Rightarrow> name \<Rightarrow> action" where
  "CreateAndStart E s n w =
     (case maps w s n of
        None \<Rightarrow> (Some (NoSuchContainer n), w)
      | Some a \<Rightarrow>
          andThen (prim E (CallCreateAndStart n))
            (\<lambda>w'. (None, updObj a (\<lambda>h. h\<lparr>status := \<lparr>stExists = True, stRunning = True\<rparr>\<rparr>) w')) w)"

text \<open>
  Modelled from the spec: \<open>containersState.RemoveContainer(name)\<close> (missing). The
  container is stopped if running and removed from the runtime, its files are
  deleted, and the entry is dropped from the mapping.
\<close>

definition RemoveContainer :: "env \<Rightarrow> mref \<Rightarrow> name \<Rightarrow> action" where
  "RemoveContainer E s n w =
     (case maps w s n of
        None \<Rightarrow> (Some (NoSuchContainer n), w)
      | Some a \<Rightarrow>
          andThen (prim E (CallRemoveContainer n))
            (\<lambda>w'. (None, setEntry s n None w')) w)"

text \<open>
  Modelled from the spec: \<open>containersState.Export()\<close> (missing): the serialisable
  snapshot of a mapping, every container by value.
\<close>

definition Export :: "world \<Rightarrow> mref \<Rightarrow> name \<rightharpoonup> hcc" where
  "Export w s = (\<lambda>n. map_option (objs w) (maps w s n))"

text \<open>
  \<open>cmp.Diff\<close> of the go-cmp library: a report of the differences, empty exactly
  when the two values are equal.
\<close>

definition cmp_Diff :: "'a \<Rightarrow> 'a \<Rightarrow> string" where
  "cmp_Diff x y = (if x = y then [] else ''diff'')"

text \<open>\<open>util.KeysStringMap\<close> (missing): the keys of a string map.\<close>

definition KeysStringMap :: "(string \<times> string) list \<Rightarrow> string list" where
  "KeysStringMap m = map fst (AList.clearjunk m)"

section \<open>Container reconciler: the methods of containers.go\<close>

text \<open>\<open>(c *containers) CheckCurrentState()\<close>; \<open>ks\<close> is the order of the refresh.\<close>

definition CheckCurrentState ::
    "env \<Rightarrow> name list \<Rightarrow> containers \<Rightarrow> world \<Rightarrow> error option \<times> containers \<times> world" where
  "CheckCurrentState E ks c w =
     (let c' = (case currentState c of
                  None \<Rightarrow> c\<lparr>currentState := Some (previousState c)\<rparr>
                | Some s \<Rightarrow> c)
      in case currentState c' of
           None \<Rightarrow> (Some NilDereference, c', w)
         | Some s \<Rightarrow> (case CheckState E s ks w of (e, w') \<Rightarrow> (e, c', w')))"

text \<open>\<open>filesToUpdate(d hostConfiguredContainer, c *hostConfiguredContainer)\<close>.\<close>

definition filesToUpdate :: "hcc \<Rightarrow> hcc option \<Rightarrow> string list" where
  "filesToUpdate d c =
     (case c of
        None \<Rightarrow> KeysStringMap (configFiles d)
      | Some r \<Rightarrow>
          map fst
            (filter (\<lambda>(p, content).
                       case map_of (configFiles r) p of
                         None \<Rightarrow> True
                       | Some currentContent \<Rightarrow> content \<noteq> currentContent)
               (AList.clearjunk (configFiles d))))"

text \<open>
  The private methods below are called by \<open>Execute\<close> only, after its nil check;
  they take the current and the desired mapping (\<open>cs\<close>, \<open>ds\<close>) of the engine.
\<close>

definition ensureConfigured :: "env \<Rightarrow> mref \<Rightarrow> mref \<Rightarrow> name \<Rightarrow> action" where
  "ensureConfigured E cs ds n w =
     (case maps w ds n of
        None \<Rightarrow> (None, w)
      | Some d \<Rightarrow>
          let r = maps w cs n
          in andThen
               (wrapErr ''failed creating config files''
                  (Configure E d (filesToUpdate (objs w d) (map_option (objs w) r))))
               (\<lambda>w1. case r of
                        None \<Rightarrow>
                          (None, updObj d (\<lambda>h. h\<lparr>configFiles := configFiles (objs w1 d)\<rparr>)
                                   (setEntry cs n (Some d) w1))
                      | Some a \<Rightarrow>
                          (None, updObj a (\<lambda>h. h\<lparr>configFiles := configFiles (objs w1 d)\<rparr>) w1))
               w)"

definition ensureRunning :: "env \<Rightarrow> addr option \<Rightarrow> action" where
  "ensureRunning E c w =
     (case c of
        None \<Rightarrow> (Some StartNonExisting, w)
      | Some a \<Rightarrow> if IsRunning (objs w a) then (None, w) else Start E a w)"

text \<open>
  In \<open>ensureExists\<close> the desired entry is read after \<open>CreateAndStart\<close> has
  succeeded, so it is present; the branch for a nil pointer is the panic of
  \<open>d.container.Status\<close>.
\<close>

definition ensureExists :: "env \<Rightarrow> mref \<Rightarrow> mref \<Rightarrow> name \<Rightarrow> action" where
  "ensureExists E cs ds n w =
     (let r = maps w cs n
      in if (case r of None \<Rightarrow> False | Some a \<Rightarrow> Exists (objs w a)) then (None, w)
         else andThen
                (wrapErr ''failed creating new container'' (CreateAndStart E ds n))
                (\<lambda>w1. case maps w1 ds n of
                         None \<Rightarrow> (Some NilDereference, w1)
                       | Some d \<Rightarrow>
                           (case r of
                              None \<Rightarrow>
                                (None, updObj d (\<lambda>h. h\<lparr>status := status (objs w1 d)\<rparr>)
                                         (setEntry cs n (Some d) w1))
                            | Some a \<Rightarrow>
                                (None, updObj a (\<lambda>h. h\<lparr>status := status (objs w1 d)\<rparr>) w1)))
                w)"

definition isUpdatable :: "mref \<Rightarrow> mref \<Rightarrow> name \<Rightarrow> world \<Rightarrow> error option" where
  "isUpdatable cs ds n w =
     (if maps w cs n = None then Some (UpdateNonExisting n)
      else if maps w ds n = None then Some (UpdateScheduledForRemoval n)
      else None)"

definition diffHost :: "mref \<Rightarrow> mref \<Rightarrow> name \<Rightarrow> world \<Rightarrow> error + string" where
  "diffHost cs ds n w =
     (case isUpdatable cs ds n w of
        Some e \<Rightarrow> Inl (Wrapped ''cannot diff container'' e)
      | None \<Rightarrow>
          (case (maps w cs n, maps w ds n) of
             (Some r, Some d) \<Rightarrow> Inr (cmp_Diff (host (objs w r)) (host (objs w d)))
           | _ \<Rightarrow> Inl NilDereference))"

definition recreate :: "env \<Rightarrow> mref \<Rightarrow> mref \<Rightarrow> name \<Rightarrow> action" where
  "recreate E cs ds n =
     andThen (wrapErr ''failed removing old container'' (RemoveContainer E cs n))
             (CreateAndStart E ds n)"

text \<open>\<open>c.currentState[n] = c.desiredState[n]\<close>\<close>

definition adoptDesired :: "mref \<Rightarrow> mref \<Rightarrow> name \<Rightarrow> world \<Rightarrow> world" where
  "adoptDesired cs ds n w = setEntry cs n (maps w ds n) w"

definition ensureHost :: "env \<Rightarrow> mref \<Rightarrow> mref \<Rightarrow> name \<Rightarrow> action" where
  "ensureHost E cs ds n w =
     (case diffHost cs ds n w of
        Inl e \<Rightarrow> (Some (Wrapped ''failed to check host diff'' e), w)
      | Inr diff \<Rightarrow>
          if diff = [] then (None, w)
          else andThen (wrapErr ''failed updating container'' (recreate E cs ds n))
                       (\<lambda>w'. (None, adoptDesired cs ds n w')) w)"

definition diffContainer :: "mref \<Rightarrow> mref \<Rightarrow> name \<Rightarrow> world \<Rightarrow> error + string" where
  "diffContainer cs ds n w =
     (case isUpdatable cs ds n w of
        Some e \<Rightarrow> Inl (Wrapped ''cannot diff container'' e)
      | None \<Rightarrow>
          (case (maps w cs n, maps w ds n) of
             (Some r, Some d) \<Rightarrow> Inr (cmp_Diff (config (objs w r)) (config (objs w d)))
           | _ \<Rightarrow> Inl NilDereference))"

definition ensureContainer :: "env \<Rightarrow> mref \<Rightarrow> mref \<Rightarrow> name \<Rightarrow> action" where
  "ensureContainer E cs ds n w =
     (case diffContainer cs ds n w of
        Inl e \<Rightarrow> (Some (Wrapped ''failed to check container diff'' e), w)
      | Inr diff \<Rightarrow>
          if diff = [] then (None, w)
          else andThen (wrapErr ''failed updating container'' (recreate E cs ds n))
                       (\<lambda>w'. (None, adoptDesired cs ds n w')) w)"

text \<open>
  The three loops of \<open>Execute\<close>. Each body is given the key that the range
  produces; Pass 1 also receives the value \<open>r\<close>.
\<close>

definition pass1Body :: "env \<Rightarrow> mref \<Rightarrow> name \<Rightarrow> action" where
  "pass1Body E cs n w =
     (case maps w cs n of
        None \<Rightarrow> (None, w)
      | Some r \<Rightarrow>
          if \<not> Exists (objs w r) then (None, setEntry cs n None w)
          else wrapErr ''failed to start stopped container'' (ensureRunning E (Some r)) w)"

definition pass2Body :: "env \<Rightarrow> mref \<Rightarrow> mref \<Rightarrow> name \<Rightarrow> action" where
  "pass2Body E cs ds i w =
     (case maps w ds i of
        None \<Rightarrow> (None, w)
      | Some _ \<Rightarrow>
          andThen (wrapErr ''failed configuring container'' (ensureConfigured E cs ds i))
                  (wrapErr ''failed creating new container'' (ensureExists E cs ds i)) w)"

definition removeUndesired :: "env \<Rightarrow> mref \<Rightarrow> mref \<Rightarrow> name \<Rightarrow> action" where
  "removeUndesired E cs ds i w =
     (if maps w ds i \<noteq> None then (None, w)
      else wrapErr ''failed removing old container'' (RemoveContainer E cs i) w)"

definition pass3Body :: "env \<Rightarrow> mref \<Rightarrow> mref \<Rightarrow> name \<Rightarrow> action" where
  "pass3Body E cs ds i w =
     (case maps w cs i of
        None \<Rightarrow> (None, w)
      | Some _ \<Rightarrow>
          andThen (wrapErr ''failed updating host configuration of container''
                     (ensureHost E cs ds i))
            (andThen (wrapErr ''failed updating configuration for container''
                        (ensureConfigured E cs ds i))
               (andThen (wrapErr ''failed updating container'' (ensureContainer E cs ds i))
                        (removeUndesired E cs ds i))) w)"

text \<open>
  \<open>(c *containers) Execute()\<close>. \<open>ks1\<close>, \<open>ks2\<close> and \<open>ks3\<close> are the orders in which
  the three range loops produce their keys.
\<close>

definition Execute ::
    "env \<Rightarrow> name list \<Rightarrow> name list \<Rightarrow> name list \<Rightarrow> containers \<Rightarrow> action" where
  "Execute E ks1 ks2 ks3 c w =
     (case currentState c of
        None \<Rightarrow> (Some NoCurrentState, w)
      | Some cs \<Rightarrow>
          andThen (forEach (pass1Body E cs) ks1)
            (andThen (forEach (pass2Body E cs (desiredState c)) ks2)
                     (forEach (pass3Body E cs (desiredState c)) ks3)) w)"



section \<open>The exported configuration: Validate, New, FromYaml\<close>

text \<open>
  The exported \<open>ContainersState\<close> is a map from names to pointers to containers
  that have not been validated yet. \<open>None\<close> is the nil map, the map is given by
  its list of entries, and an entry may hold the nil pointer (\<open>None\<close>). The
  validation of a single container is not among the sources and is a parameter
  \<open>valid\<close>.
\<close>

type_synonym ContainersState = "(name \<times> hcc option) list option"

record Containers =
  PreviousState :: ContainersState
  DesiredState :: ContainersState

text \<open>
  Modelled from the spec: \<open>ContainersState.New()\<close> (missing). Every container is
  validated and the validated state holds the same names; the first container
  that fails validation (a nil pointer does) is the error. \<open>Validate\<close> calls it
  on a nil state as well (one of the two states may be absent), where it yields
  the empty state.
\<close>

fun validateEntries ::
    "(hcc \<Rightarrow> bool) \<Rightarrow> (name \<times> hcc option) list \<Rightarrow> error + (name \<times> hcc) list" where
  "validateEntries valid [] = Inr []"
| "validateEntries valid ((n, p) # m) =
     (case p of
        None \<Rightarrow> Inl (InvalidContainer n)
      | Some h \<Rightarrow>
          if \<not> valid h then Inl (InvalidContainer n)
          else case validateEntries valid m of
                 Inl e \<Rightarrow> Inl e
               | Inr m' \<Rightarrow> Inr ((n, h) # m'))"

definition ContainersState_New ::
    "(hcc \<Rightarrow> bool) \<Rightarrow> ContainersState \<Rightarrow> error + (name \<times> hcc) list" where
  "ContainersState_New valid s =
     (case s of None \<Rightarrow> Inr [] | Some m \<Rightarrow> validateEntries valid m)"

text \<open>
  \<open>(c *Containers) Validate()\<close>; the receiver may be the nil pointer (\<open>None\<close>).
  \<open>len\<close> of a state is zero exactly when it has no entry.
\<close>

definition Validate :: "(hcc \<Rightarrow> bool) \<Rightarrow> Containers option \<Rightarrow> error option" where
  "Validate valid c =
     (case c of
        None \<Rightarrow> Some NoStateDefined
      | Some cv \<Rightarrow>
          if PreviousState cv = None \<and> DesiredState cv = None then Some NoStateDefined
          else case ContainersState_New valid (PreviousState cv) of
                 Inl e \<Rightarrow> Some e
               | Inr prev \<Rightarrow>
                   (case ContainersState_New valid (DesiredState cv) of
                      Inl e \<Rightarrow> Some e
                    | Inr des \<Rightarrow>
                        if length prev = 0 \<and> length des = 0
                        then Some NoContainersDefined
                        else None))"

text \<open>
  The engine as \<open>New\<close> returns it: the validated previous and desired state, and
  no current state yet.
\<close>

record engine =
  enPrevious :: "(name \<times> hcc) list"
  enDesired :: "(name \<times> hcc) list"

text \<open>
  \<open>(c *Containers) New()\<close>. After a successful \<open>Validate\<close> the two states are
  built again and their errors are dropped; a state whose construction failed
  would be a nil interface, whose type assertion panics.
\<close>

definition Containers_New :: "(hcc \<Rightarrow> bool) \<Rightarrow> Containers option \<Rightarrow> error + engine" where
  "Containers_New valid c =
     (case Validate valid c of
        Some e \<Rightarrow> Inl (Wrapped ''failed to validate containers configuration'' e)
      | None \<Rightarrow>
          (case c of
             None \<Rightarrow> Inl NilDereference
           | Some cv \<Rightarrow>
               (case (ContainersState_New valid (PreviousState cv),
                      ContainersState_New valid (DesiredState cv)) of
                  (Inr p, Inr d) \<Rightarrow> Inr \<lparr>enPrevious = p, enDesired = d\<rparr>
                | _ \<Rightarrow> Inl NilDereference)))"

text \<open>
  The engine placed in a world, as the allocations of \<open>New\<close> lay it out: the
  previous state is map 0 and the desired state is map 1, every entry is an
  object of its own, and the current state is nil. \<open>AList.clearjunk\<close> keeps one
  entry for each name.
\<close>

definition emptyHcc :: hcc where
  "emptyHcc = \<lparr>host = [], config = [], status = \<lparr>stExists = False, stRunning = False\<rparr>,
               configFiles = []\<rparr>"

definition place :: "engine \<Rightarrow> containers \<times> world" where
  "place en =
     (let p = AList.clearjunk (enPrevious en);
          d = AList.clearjunk (enDesired en)
      in (\<lparr>previousState = 0, currentState = None, desiredState = 1\<rparr>,
          \<lparr>maps = (\<lambda>s. if s = 0 then map_of (zip (map fst p) [0 ..< length p])
                        else if s = 1 then map_of (zip (map fst d) [length p ..< length p + length d])
                        else Map.empty),
           objs = (\<lambda>a. if a < length p then snd (p ! a)
                        else if a < length p + length d then snd (d ! (a - length p))
                        else emptyHcc),
           trace = []\<rparr>))"

text \<open>The name whose entry the object at an address of that layout is.\<close>

definition placeName :: "engine \<Rightarrow> addr \<Rightarrow> name" where
  "placeName en a =
     (let p = AList.clearjunk (enPrevious en);
          d = AList.clearjunk (enDesired en)
      in if a < length p then fst (p ! a) else fst (d ! (a - length p)))"

subsection \<open>FromYaml\<close>

text \<open>
  \<open>FromYaml\<close> decodes with \<open>yaml.Unmarshal\<close> of \<open>sigs.k8s.io/yaml\<close>, a library
  outside the repository. It parses the document with \<open>gopkg.in/yaml.v2\<close>,
  converts the result to JSON and decodes the JSON into the target with
  \<open>encoding/json\<close>. What follows is the behaviour of these libraries on a
  document whose top level is a mapping with string keys, which is represented
  by the entries of that mapping in the order of the document. A value is a
  mapping whose entries decode into containers (or are null), the null value,
  something else that does not decode into a \<open>ContainersState\<close>, or something
  that the conversion to JSON refuses wherever it stands (a mapping with a null
  key, a float that is not a number).
\<close>

datatype yvalue = YContainers "(name \<times> hcc option) list" | YNull | YOther | YUnsupported

text \<open>
  The parser (not the strict one) keeps, for a key that a mapping repeats, the
  last of its values.
\<close>

definition lastWins :: "('k \<times> 'v) list \<Rightarrow> ('k \<times> 'v) list" where
  "lastWins m = rev (AList.clearjunk (rev m))"

text \<open>
  \<open>encoding/json\<close> matches an object key with a struct field by the name in the
  field's \<open>json\<close> tag: exactly, or else ignoring case. For a name that has an
  \<open>s\<close> or a \<open>k\<close> in it, as the two names here have, the comparison is
  \<open>equalFoldRight(s, t)\<close> with the ASCII field name \<open>s\<close> and the key \<open>t\<close>, both
  byte strings: an ASCII byte of the key matches the same byte or, for a
  letter, the byte that differs in bit 5 (\<open>sb & caseMask\<close>, with
  \<open>caseMask = 0xDF\<close>); a byte of the key that is not ASCII matches only as the
  UTF-8 encoding of the long s (two bytes, for \<open>s\<close> and \<open>S\<close>) or of the Kelvin
  sign (three bytes, for \<open>k\<close> and \<open>K\<close>).
\<close>

definition caseMasked :: "char \<Rightarrow> nat" where
  "caseMasked c = (if of_char c div 32 mod 2 = (1::nat) then of_char c - 32 else of_char c)"

definition smallLongEss :: string where
  "smallLongEss = [char_of (197::nat), char_of (191::nat)]"

definition kelvin :: string where
  "kelvin = [char_of (226::nat), char_of (132::nat), char_of (170::nat)]"

fun equalFoldRight :: "string \<Rightarrow> string \<Rightarrow> bool" where
  "equalFoldRight [] t = (t = [])"
| "equalFoldRight (sb # s) [] = False"
| "equalFoldRight (sb # s) (tb # t) =
     (if of_char tb < (128::nat)
      then (sb = tb \<or> (65 \<le> caseMasked sb \<and> caseMasked sb \<le> 90 \<and>
                         caseMasked sb = caseMasked tb)) \<and>
           equalFoldRight s t
      else if sb = CHR ''s'' \<or> sb = CHR ''S''
      then take 2 (tb # t) = smallLongEss \<and> equalFoldRight s (drop 2 (tb # t))
      else if sb = CHR ''k'' \<or> sb = CHR ''K''
      then take 3 (tb # t) = kelvin \<and> equalFoldRight s (drop 3 (tb # t))
      else False)"

text \<open>
  The fields of \<open>Containers\<close> with their \<open>json\<close> names, in the order of the
  struct, and the field that the decoder picks for a key: the one with exactly
  that name, or else the first whose name matches ignoring case. A key that
  matches no field is skipped with its value.
\<close>

datatype field = FieldPreviousState | FieldDesiredState

definition typeFields :: "(string \<times> field) list" where
  "typeFields = [(''previousState'', FieldPreviousState), (''desiredState'', FieldDesiredState)]"

definition findField :: "string \<Rightarrow> field option" where
  "findField key =
     (case map_of typeFields key of
        Some f \<Rightarrow> Some f
      | None \<Rightarrow> map_option snd (find (\<lambda>(name, f). equalFoldRight name key) typeFields))"

text \<open>
  Decoding a value into a field of type \<open>ContainersState\<close> that holds \<open>s\<close>: null
  makes the field the nil map; an object is decoded into the map that the field
  holds (a new one if the field is nil), entry by entry, so that the entries
  that are there already stay unless the object has their key; anything else is
  a type error, with which \<open>Unmarshal\<close> returns in the end.
\<close>

fun decodeInto :: "ContainersState \<Rightarrow> yvalue \<Rightarrow> error + ContainersState" where
  "decodeInto s YNull = Inr None"
| "decodeInto s (YContainers m) =
     Inr (Some (fold (\<lambda>(k, v). AList.update k v) m (case s of None \<Rightarrow> [] | Some old \<Rightarrow> old)))"
| "decodeInto s YOther = Inl ParseError"
| "decodeInto s YUnsupported = Inl ParseError"

text \<open>The decoder goes through the keys of the object in their order.\<close>

fun decodeObject :: "(string \<times> yvalue) list \<Rightarrow> Containers \<Rightarrow> error + Containers" where
  "decodeObject [] c = Inr c"
| "decodeObject ((key, v) # kvs) c =
     (case findField key of
        None \<Rightarrow> decodeObject kvs c
      | Some FieldPreviousState \<Rightarrow>
          (case decodeInto (PreviousState c) v of
             Inl e \<Rightarrow> Inl e
           | Inr s \<Rightarrow> decodeObject kvs (c\<lparr>PreviousState := s\<rparr>))
      | Some FieldDesiredState \<Rightarrow>
          (case decodeInto (DesiredState c) v of
             Inl e \<Rightarrow> Inl e
           | Inr s \<Rightarrow> decodeObject kvs (c\<lparr>DesiredState := s\<rparr>)))"

text \<open>
  \<open>yaml.Unmarshal(c, &containers)\<close> on the empty \<open>Containers\<close> that \<open>FromYaml\<close>
  allocates. The whole mapping is converted to JSON before anything is
  decoded, so a value that the conversion refuses is an error under any key.
  The JSON has the keys of the mapping sorted (\<open>json.Marshal\<close> of a Go map),
  each once.
\<close>

definition Unmarshal :: "(string \<times> yvalue) list \<Rightarrow> error + Containers" where
  "Unmarshal doc =
     (let m = lastWins doc
      in if list_ex (\<lambda>(k, v). v = YUnsupported) m then Inl ParseError
         else decodeObject (sort_key fst m) \<lparr>PreviousState = None, DesiredState = None\<rparr>)"

definition FromYaml :: "(hcc \<Rightarrow> bool) \<Rightarrow> (string \<times> yvalue) list \<Rightarrow> error + engine" where
  "FromYaml valid c =
     (case Unmarshal c of
        Inl e \<Rightarrow> Inl (Wrapped ''failed to parse input yaml'' e)
      | Inr cs \<Rightarrow>
          (case Containers_New valid (Some cs) of
             Inl e \<Rightarrow> Inl (Wrapped ''failed to create containers object'' e)
           | Inr cl \<Rightarrow> Inr cl))"

section \<open>Control plane (package controlplane)\<close>

text \<open>
  The three components, their \<open>New\<close> and their \<open>ToHostConfiguredContainer\<close> live
  in files that are not among the sources. The settings of a control plane
  (everything but \<open>State\<close>) are a type parameter, and a record of functions stands
  for the missing operations: \<open>buildComponents\<close> fills the defaults in,
  \<open>kasNew\<close>, \<open>kcmNew\<close> and \<open>ksNew\<close> are \<open>c.KubeAPIServer.New()\<close>,
  \<open>c.KubeControllerManager.New()\<close> and \<open>c.KubeScheduler.New()\<close>, and \<open>toHcc\<close> is
  \<open>ToHostConfiguredContainer\<close>.
\<close>

record 'cfg Controlplane =
  Settings :: 'cfg
  State :: "ContainersState option"

record ('cfg, 'k) components =
  buildComponents :: "'cfg \<Rightarrow> 'cfg"
  kasNew :: "'cfg \<Rightarrow> error + 'k"
  kcmNew :: "'cfg \<Rightarrow> error + 'k"
  ksNew :: "'cfg \<Rightarrow> error + 'k"
  toHcc :: "'k \<Rightarrow> error + hcc"

text \<open>
  \<open>errors = append(errors, fmt.Errorf("msg: %w", err))\<close> when \<open>err\<close> is not nil,
  and \<open>errors.Return()\<close> of \<open>util.ValidateError\<close> (missing): nil exactly when
  nothing was collected.
\<close>

definition collect :: "string \<Rightarrow> error + 'a \<Rightarrow> error list" where
  "collect msg r = (case r of Inl e \<Rightarrow> [Wrapped msg e] | Inr _ \<Rightarrow> [])"

definition Return :: "error list \<Rightarrow> error option" where
  "Return errors = (if errors = [] then None else Some (ValidateError errors))"

text \<open>
  \<open>(c *Controlplane) Validate()\<close>; the receiver is updated by
  \<open>buildComponents\<close> and returned along with the error.
\<close>

definition Controlplane_Validate ::
    "('cfg, 'k) components \<Rightarrow> 'cfg Controlplane \<Rightarrow> error option \<times> 'cfg Controlplane" where
  "Controlplane_Validate P c =
     (let c' = c\<lparr>Settings := buildComponents P (Settings c)\<rparr>;
          kas = kasNew P (Settings c');
          kcm = kcmNew P (Settings c');
          ks = ksNew P (Settings c');
          errors = collect ''failed to verify kube-apiserver configuration'' kas @
                   collect ''failed to verify kube-controller-manager'' kcm @
                   collect ''failed to verify kube-scheduler configuration'' ks
      in if length errors > 0 then (Return errors, c')
         else case (kas, kcm, ks) of
                (Inr a, Inr b, Inr s) \<Rightarrow>
                  (Return
                     (collect ''failed to build kube-apiserver container configuration'' (toHcc P a) @
                      collect ''failed to build kube-controller-manager container configuration''
                        (toHcc P b) @
                      collect ''failed to build kube-scheduler container configuration'' (toHcc P s)),
                   c')
              | _ \<Rightarrow> (Some NilDereference, c'))"

text \<open>
  The executable \<open>controlplane\<close>: its only field is the containers engine, a nil
  interface (\<open>None\<close>) when the \<open>New\<close> of the containers failed.
\<close>

record controlplane =
  cpContainers :: "engine option"

text \<open>
  \<open>(c *Controlplane) New()\<close>. Every error after \<open>Validate\<close> is dropped by the
  source: \<open>kas, _ := c.KubeAPIServer.New()\<close> leaves a nil interface on failure,
  whose method call panics; \<open>kasHcc, _ := kas.ToHostConfiguredContainer()\<close> leaves
  a nil pointer, which goes into the desired state; \<open>co, _ = cc.New()\<close> leaves a
  nil engine. The first \<open>cc.New()\<close> of the source, on the previous state alone,
  has no effect: its result is overwritten.
\<close>

definition dropError :: "error + 'a \<Rightarrow> 'a option" where
  "dropError r = (case r of Inl _ \<Rightarrow> None | Inr x \<Rightarrow> Some x)"

definition Controlplane_New ::
    "(hcc \<Rightarrow> bool) \<Rightarrow> ('cfg, 'k) components \<Rightarrow> 'cfg Controlplane \<Rightarrow> error + controlplane" where
  "Controlplane_New valid P c =
     (case Controlplane_Validate P c of
        (Some e, _) \<Rightarrow> Inl (Wrapped ''failed to validate controlplane configuration'' e)
      | (None, c1) \<Rightarrow>
          let s = (case State c1 of None \<Rightarrow> Some [] | Some st \<Rightarrow> st);
              c2 = c1\<lparr>Settings := buildComponents P (Settings c1)\<rparr>
          in case (dropError (kasNew P (Settings c2)), dropError (kcmNew P (Settings c2)),
                   dropError (ksNew P (Settings c2))) of
               (Some kas, Some kcm, Some ks) \<Rightarrow>
                 let kasHcc = dropError (toHcc P kas);
                     kcmHcc = dropError (toHcc P kcm);
                     ksHcc = dropError (toHcc P ks);
                     cc = \<lparr>PreviousState = s,
                           DesiredState = Some [(''kube-apiserver'', kasHcc),
                                                (''kube-controller-manager'', kcmHcc),
                                                (''kube-scheduler'', ksHcc)]\<rparr>
                 in Inr \<lparr>cpContainers = dropError (Containers_New valid (Some cc))\<rparr>
             | _ \<Rightarrow> Inl NilDereference)"


section \<open>Sequences of calls on an engine\<close>

text \<open>
  A caller holds the engine and calls \<open>CheckCurrentState\<close> and \<open>Execute\<close> in any
  order, going on after an error if it wishes; each call comes with the orders
  in which its loops happen to run.
\<close>

datatype op = OpCheckCurrentState "name list" | OpExecute "name list" "name list" "name list"

fun run :: "env \<Rightarrow> op list \<Rightarrow> containers \<Rightarrow> world \<Rightarrow> containers \<times> world" where
  "run E [] c w = (c, w)"
| "run E (OpCheckCurrentState ks # ops) c w =
     (case CheckCurrentState E ks c w of (e, c', w') \<Rightarrow> run E ops c' w')"
| "run E (OpExecute ks1 ks2 ks3 # ops) c w =
     (case Execute E ks1 ks2 ks3 c w of (e, w') \<Rightarrow> run E ops c w')"


section \<open>Ownership of container objects\<close>

text \<open>
  \<open>New\<close> gives every entry of the previous and of the desired state an object of
  its own, and the reconciler only ever stores the desired object of a name
  under that same name in the current state. So each object that the two
  mappings reach belongs to one name: \<open>owned nm cs ds w\<close> says that \<open>nm\<close> is such
  an assignment of names to addresses. \<open>belongs nm n k\<close> says that the call \<open>k\<close>
  concerns the name \<open>n\<close>.
\<close>

definition owned :: "(addr \<Rightarrow> name) \<Rightarrow> mref \<Rightarrow> mref \<Rightarrow> world \<Rightarrow> bool" where
  "owned nm cs ds w \<longleftrightarrow>
     cs \<noteq> ds \<and>
     (\<forall>n a. maps w cs n = Some a \<longrightarrow> nm a = n) \<and>
     (\<forall>n a. maps w ds n = Some a \<longrightarrow> nm a = n)"

fun belongs :: "(addr \<Rightarrow> name) \<Rightarrow> name \<Rightarrow> call \<Rightarrow> bool" where
  "belongs nm n (CallStatus a) = (nm a = n)"
| "belongs nm n (CallConfigure a fs) = (nm a = n)"
| "belongs nm n (CallStart a) = (nm a = n)"
| "belongs nm n (CallCreateAndStart m) = (m = n)"
| "belongs nm n (CallRemoveContainer m) = (m = n)"

text \<open>
  \<open>within nm cs ds m w w'\<close>: going from \<open>w\<close> to \<open>w'\<close> changed nothing but the entry
  of \<open>m\<close> in the current state and the objects of \<open>m\<close>, issued only calls that
  concern \<open>m\<close>, and kept the ownership.
\<close>

definition within :: "(addr \<Rightarrow> name) \<Rightarrow> mref \<Rightarrow> mref \<Rightarrow> name \<Rightarrow> world \<Rightarrow> world \<Rightarrow> bool" where
  "within nm cs ds m w w' \<longleftrightarrow>
     (\<forall>s. s \<noteq> cs \<longrightarrow> maps w' s = maps w s) \<and>
     (\<forall>k. k \<noteq> m \<longrightarrow> maps w' cs k = maps w cs k) \<and>
     (\<forall>a. nm a \<noteq> m \<longrightarrow> objs w' a = objs w a) \<and>
     (\<exists>t. trace w' = trace w @ t \<and> (\<forall>k \<in> set t. belongs nm m k)) \<and>
     owned nm cs ds w'"

text \<open>The calls issued between two worlds.\<close>

definition callsSince :: "world \<Rightarrow> world \<Rightarrow> call list" where
  "callsSince w w' = drop (length (trace w)) (trace w')"


section \<open>What a run does to one name\<close>

text \<open>The files that the \<open>Configure\<close> calls on the object \<open>a\<close> write, in order.\<close>

fun configured :: "addr \<Rightarrow> call \<Rightarrow> string list" where
  "configured a (CallConfigure b fs) = (if a = b then fs else [])"
| "configured a (CallStatus b) = []"
| "configured a (CallStart b) = []"
| "configured a (CallCreateAndStart m) = []"
| "configured a (CallRemoveContainer m) = []"

definition filesWritten :: "addr \<Rightarrow> call list \<Rightarrow> string list" where
  "filesWritten a t = concat (map (configured a) t)"

text \<open>The calls that create or remove the container of a name.\<close>

definition recreations :: "name \<Rightarrow> call list \<Rightarrow> call list" where
  "recreations n t = filter (\<lambda>k. k = CallRemoveContainer n \<or> k = CallCreateAndStart n) t"

text \<open>
  The name \<open>n\<close>, with the current object \<open>r\<close> and the desired object \<open>d\<close>, has
  drifted in its files at most. \<open>driftInv \<dots> w0 b w\<close> relates the world \<open>w0\<close> in
  which \<open>Execute\<close> starts to a later world \<open>w\<close>: the entries of \<open>n\<close> are the
  same objects, the desired object and the host, configuration and status of
  the current object are as they were, every call issued for \<open>n\<close> is a
  \<open>Configure\<close> on \<open>d\<close>, and either nothing was written yet and the files of
  \<open>r\<close> are the old ones (\<open>b\<close> false), or exactly the drifted files were written
  and the files of \<open>r\<close> are the desired ones (\<open>b\<close> true). \<open>driftPost\<close> is what
  remains true when a step fails.
\<close>

definition driftInv ::
    "(addr \<Rightarrow> name) \<Rightarrow> mref \<Rightarrow> mref \<Rightarrow> name \<Rightarrow> addr \<Rightarrow> addr \<Rightarrow> world \<Rightarrow> bool \<Rightarrow> world \<Rightarrow> bool" where
  "driftInv nm cs ds n r d w0 b w \<longleftrightarrow>
     owned nm cs ds w \<and> maps w cs n = Some r \<and> maps w ds n = Some d \<and>
     objs w d = objs w0 d \<and>
     host (objs w r) = host (objs w0 r) \<and> config (objs w r) = config (objs w0 r) \<and>
     status (objs w r) = status (objs w0 r) \<and>
     (\<exists>t. trace w = trace w0 @ t \<and>
          (\<forall>k \<in> set t. belongs nm n k \<longrightarrow> (\<exists>fs. k = CallConfigure d fs)) \<and>
          (if b then filesWritten d t = filesToUpdate (objs w0 d) (Some (objs w0 r)) \<and>
                     configFiles (objs w r) = configFiles (objs w0 d)
           else filesWritten d t = [] \<and> configFiles (objs w r) = configFiles (objs w0 r)))"

definition driftPost ::
    "(addr \<Rightarrow> name) \<Rightarrow> mref \<Rightarrow> mref \<Rightarrow> name \<Rightarrow> addr \<Rightarrow> addr \<Rightarrow> world \<Rightarrow> world \<Rightarrow> bool" where
  "driftPost nm cs ds n r d w0 w \<longleftrightarrow>
     maps w cs n = Some r \<and> maps w ds n = Some d \<and>
     objs w d = objs w0 d \<and>
     host (objs w r) = host (objs w0 r) \<and> config (objs w r) = config (objs w0 r) \<and>
     status (objs w r) = status (objs w0 r) \<and>
     (\<exists>t. trace w = trace w0 @ t \<and>
          (\<forall>k \<in> set t. belongs nm n k \<longrightarrow> (\<exists>fs. k = CallConfigure d fs)) \<and>
          (filesWritten d t = [] \<or>
           filesWritten d t = filesToUpdate (objs w0 d) (Some (objs w0 r))))"




text \<open>
  The only call that a run on a settled state issues is a \<open>Configure\<close> that
  writes no file. \<open>idle w w'\<close>: from \<open>w\<close> to \<open>w'\<close> no map and no container
  object changed and only such calls were issued.
\<close>

fun benign :: "call \<Rightarrow> bool" where
  "benign (CallConfigure a fs) = (fs = [])"
| "benign (CallStart a) = False"
| "benign (CallStatus a) = False"
| "benign (CallCreateAndStart m) = False"
| "benign (CallRemoveContainer m) = False"

definition idle :: "world \<Rightarrow> world \<Rightarrow> bool" where
  "idle w w' \<longleftrightarrow>
     maps w' = maps w \<and> objs w' = objs w \<and>
     (\<exists>t. trace w' = trace w @ t \<and> (\<forall>k \<in> set t. benign k))"




text \<open>
  The name \<open>n\<close> is in the current state with an existing container and not in
  the desired state, and no \<open>RemoveContainer\<close> was issued for it since \<open>w0\<close>.
\<close>

definition undesired ::
    "(addr \<Rightarrow> name) \<Rightarrow> mref \<Rightarrow> mref \<Rightarrow> name \<Rightarrow> addr \<Rightarrow> world \<Rightarrow> world \<Rightarrow> bool" where
  "undesired nm cs ds n r w0 w \<longleftrightarrow>
     owned nm cs ds w \<and> maps w cs n = Some r \<and> maps w ds n = None \<and> Exists (objs w r) \<and>
     (\<exists>t. trace w = trace w0 @ t \<and> CallRemoveContainer n \<notin> set t)"


text \<open>
  The drifted files of a container, in the words of the specification: the
  paths of the desired files that are absent from the files of the current
  container or whose content there differs from the desired content.
\<close>

definition driftedFiles :: "hcc \<Rightarrow> hcc \<Rightarrow> string set" where
  "driftedFiles d r =
     {p. \<exists>content. map_of (configFiles d) p = Some content \<and>
                    map_of (configFiles r) p \<noteq> Some content}"

section \<open>Kubernetes PKI schema (package pki)\<close>

text \<open>
  The \<open>Certificate\<close> struct is declared in another file of package pki; the
  record below carries the fields that the certificate requests of
  \<^verbatim>\<open>kubernetes.go\<close> read or write. \<open>serverUsage()\<close> is declared elsewhere as
  well and is taken as a parameter.
\<close>

record Certificate =
  CommonName :: string
  Organization :: string
  IPAddresses :: "string list"
  DNSNames :: "string list"
  KeyUsage :: "string list"

definition emptyCertificate :: Certificate where
  "emptyCertificate =
     \<lparr>CommonName = [], Organization = [], IPAddresses = [], DNSNames = [], KeyUsage = []\<rparr>"

record KubeAPIServer =
  kasCertificate :: Certificate
  ExternalNames :: "string list"
  ServerIPs :: "string list"
  ClusterDomain :: string
  ServerCertificate :: "Certificate option"
  KubeletCertificate :: "Certificate option"
  FrontProxyClientCertificate :: "Certificate option"

record Kubernetes =
  kCertificate :: Certificate
  kCA :: "Certificate option"
  kFrontProxyCA :: "Certificate option"
  kKubeAPIServer :: "KubeAPIServer option"
  AdminCertificate :: "Certificate option"
  KubeControllerManagerCertificate :: "Certificate option"
  KubeSchedulerCertificate :: "Certificate option"
  ServiceAccountCertificate :: "Certificate option"

text \<open>
  A certificate request: the target, the signing CA (\<open>None\<close> is the nil pointer)
  and the inheritance chain in the order of the slice literal.
\<close>

record certificateRequest =
  Target :: Certificate
  crCA :: "Certificate option"
  Certificates :: "Certificate list"

definition defaultDNSNames :: "string list" where
  "defaultDNSNames =
     [''localhost'', ''kubernetes'', ''kubernetes.default'', ''kubernetes.default.svc'',
      ''kubernetes.default.svc.cluster'', ''kubernetes.default.svc.cluster.local'']"

text \<open>
  \<open>defaultKubeAPIServerServerCertificate(k *KubeAPIServer)\<close>: the argument may be
  nil, in which case nothing is appended.
\<close>

definition defaultKubeAPIServerServerCertificate ::
    "string list \<Rightarrow> KubeAPIServer option \<Rightarrow> Certificate" where
  "defaultKubeAPIServerServerCertificate serverUsage k =
     (let c = \<lparr>CommonName = ''kube-apiserver'', Organization = [],
               IPAddresses = [''127.0.0.1''], DNSNames = defaultDNSNames,
               KeyUsage = serverUsage\<rparr>
      in case k of
           None \<Rightarrow> c
         | Some ka \<Rightarrow> c\<lparr>DNSNames := DNSNames c @ ExternalNames ka,
                        IPAddresses := IPAddresses c @ ServerIPs ka\<rparr>)"

text \<open>
  \<open>(k *Kubernetes) kubeAPIServerServerCR(defaultCertificate)\<close>. The method
  dereferences \<open>k.KubeAPIServer\<close> first: on a nil pointer the program panics, which
  is the result \<open>None\<close>. Otherwise a missing server certificate is replaced by
  an empty one (the receiver is updated) and the request is returned.
\<close>

definition kubeAPIServerServerCR ::
    "string list \<Rightarrow> Kubernetes \<Rightarrow> Certificate \<Rightarrow> (Kubernetes \<times> certificateRequest) option" where
  "kubeAPIServerServerCR serverUsage k defaultCertificate =
     (case kKubeAPIServer k of
        None \<Rightarrow> None
      | Some ka0 \<Rightarrow>
          let sc = (case ServerCertificate ka0 of None \<Rightarrow> emptyCertificate | Some c \<Rightarrow> c);
              ka = ka0\<lparr>ServerCertificate := Some sc\<rparr>;
              k' = k\<lparr>kKubeAPIServer := Some ka\<rparr>
          in Some (k', \<lparr>Target = sc, crCA = kCA k',
                        Certificates = [defaultCertificate, kCertificate k', kasCertificate ka,
                                        defaultKubeAPIServerServerCertificate serverUsage (Some ka),
                                        sc]\<rparr>))"


section \<open>Concrete configurations\<close>

text \<open>
  Small configurations on which the theorems below are instantiated: a quiet
  environment in which no call fails and a refresh reads back what is recorded,
  and containers on the hosts \<open>h1\<close> and \<open>h2\<close>.
\<close>

definition exQuiet :: env where
  "exQuiet = \<lparr>fails = (\<lambda>t k. False), observe = (\<lambda>t a h. (status h, configFiles h))\<rparr>"

definition exRunning :: hcc where
  "exRunning = \<lparr>host = ''h1'', config = ''img'',
                 status = \<lparr>stExists = True, stRunning = True\<rparr>, configFiles = []\<rparr>"

definition exStopped :: hcc where
  "exStopped = \<lparr>host = ''h1'', config = ''img'',
                 status = \<lparr>stExists = True, stRunning = False\<rparr>, configFiles = []\<rparr>"


text \<open>The engine with the previous state \<open>{b}\<close> and an empty desired state.\<close>

definition exRemoval :: engine where
  "exRemoval = \<lparr>enPrevious = [(''b'', exRunning)], enDesired = []\<rparr>"



text \<open>An API server section with one external name and one server address.\<close>

definition exKubeAPIServer :: KubeAPIServer where
  "exKubeAPIServer =
     \<lparr>kasCertificate = emptyCertificate, ExternalNames = [''api.example.com''],
      ServerIPs = [''10.0.0.1''], ClusterDomain = [], ServerCertificate = None,
      KubeletCertificate = None, FrontProxyClientCertificate = None\<rparr>"

definition exKubernetes :: Kubernetes where
  "exKubernetes =
     \<lparr>kCertificate = emptyCertificate, kCA = None, kFrontProxyCA = None,
      kKubeAPIServer = Some exKubeAPIServer, AdminCertificate = None,
      KubeControllerManagerCertificate = None, KubeSchedulerCertificate = None,
      ServiceAccountCertificate = None\<rparr>"

text \<open>
  A control plane whose three components always build, with a container
  validation that asks for a non-empty configuration, and a persisted state
  that holds one container with an empty configuration.
\<close>

definition exComponents :: "(unit, hcc) components" where
  "exComponents =
     \<lparr>buildComponents = (\<lambda>s. s), kasNew = (\<lambda>s. Inr exRunning), kcmNew = (\<lambda>s. Inr exRunning),
      ksNew = (\<lambda>s. Inr exRunning), toHcc = (\<lambda>k. Inr k)\<rparr>"

definition exValid :: "hcc \<Rightarrow> bool" where
  "exValid h = (config h \<noteq> [])"

definition exControlplane :: "unit Controlplane" where
  "exControlplane = \<lparr>Settings = (), State = Some (Some [(''x'', Some emptyHcc)])\<rparr>"

text \<open>
  A persisted document with the previous state \<open>{b}\<close> and a top-level field
  that \<open>Containers\<close> does not have.
\<close>

definition exUnknownDoc :: "(string \<times> yvalue) list" where
  "exUnknownDoc =
     [(''previousState'', YContainers [(''b'', Some exRunning)]), (''unknownField'', YOther)]"

text \<open>
  An engine after \<open>CheckCurrentState\<close>, laid out by hand: the current state
  (which is the previous state) is map 0 and holds \<open>a\<close> at address 0, the desired
  state is map 1 and holds \<open>a\<close> at address 1.
\<close>

definition exChecked :: containers where
  "exChecked = \<lparr>previousState = 0, currentState = Some 0, desiredState = 1\<rparr>"

definition exWorld :: "hcc \<Rightarrow> hcc \<Rightarrow> world" where
  "exWorld cur des =
     \<lparr>maps = (\<lambda>s. if s = 0 then [''a'' \<mapsto> 0] else if s = 1 then [''a'' \<mapsto> 1] else Map.empty),
      objs = (\<lambda>a. if a = 0 then cur else des),
      trace = []\<rparr>"

text \<open>The file \<open>/c.yaml\<close> should have the content \<open>y\<close>.\<close>

definition exNewFiles :: hcc where
  "exNewFiles = \<lparr>host = ''h1'', config = ''img'',
                  status = \<lparr>stExists = False, stRunning = False\<rparr>,
                  configFiles = [(''/c.yaml'', ''y'')]\<rparr>"

text \<open>
  Of the three files that should be on the host, \<open>/c.yaml\<close> has another content
  there, \<open>/d.yaml\<close> is missing, and \<open>/e.yaml\<close> is as it should be.
\<close>

definition exSomeFiles :: hcc where
  "exSomeFiles = exRunning\<lparr>configFiles := [(''/c.yaml'', ''x''), (''/e.yaml'', ''u'')]\<rparr>"

definition exMoreFiles :: hcc where
  "exMoreFiles = \<lparr>host = ''h1'', config = ''img'',
                   status = \<lparr>stExists = False, stRunning = False\<rparr>,
                   configFiles = [(''/c.yaml'', ''y''), (''/d.yaml'', ''z''), (''/e.yaml'', ''u'')]\<rparr>"

text \<open>A stopped container on whose host \<open>/c.yaml\<close> has the content \<open>x\<close>.\<close>

definition exOldFilesStopped :: hcc where
  "exOldFilesStopped = exStopped\<lparr>configFiles := [(''/c.yaml'', ''x'')]\<rparr>"



section \<open>Errors of the loops\<close>

lemma pair_of_fst: "fst x = a \<Longrightarrow> x = (a, snd x)"
  by (cases x) simp

lemma triple_of_fst: "fst x = a \<Longrightarrow> x = (a, fst (snd x), snd (snd x))"
  by (cases x) simp

lemma Start_result:
  "Start E a w =
     (if fails E (trace w) (CallStart a)
      then (Some (Failed (CallStart a)), w\<lparr>trace := trace w @ [CallStart a]\<rparr>)
      else (None, updObj a (\<lambda>h. h\<lparr>status := (status h)\<lparr>stRunning := True\<rparr>\<rparr>)
                    (w\<lparr>trace := trace w @ [CallStart a]\<rparr>)))"
  by (simp add: Start_def prim_def andThen_def)

lemma forEach_error:
  "forEach body ks w = (Some e, w') \<Longrightarrow> \<exists>k \<in> set ks. \<exists>v. body k v = (Some e, w')"
proof (induction ks arbitrary: w)
  case Nil
  then show ?case by simp
next
  case (Cons k ks)
  from Cons.prems have "body k w = (Some e, w') \<or>
      (\<exists>v. body k w = (None, v) \<and> forEach body ks v = (Some e, w'))"
    by (auto simp: andThen_def split: prod.splits option.splits)
  then show ?case
    using Cons.IH by auto
qed

lemma wrapErr_error: "wrapErr msg f w = (Some e, w') \<Longrightarrow> \<exists>x. e = Wrapped msg x"
  by (auto simp: wrapErr_def split: prod.splits option.splits)

lemma andThen_error:
  "andThen f g w = (Some e, w') \<Longrightarrow>
     f w = (Some e, w') \<or> (\<exists>v. f w = (None, v) \<and> g v = (Some e, w'))"
  by (auto simp: andThen_def split: prod.splits option.splits)

lemma pass1Body_error: "pass1Body E cs n w = (Some e, w') \<Longrightarrow> \<exists>m x. e = Wrapped m x"
  by (auto simp: pass1Body_def split: option.splits if_splits dest: wrapErr_error)

lemma pass2Body_error: "pass2Body E cs ds n w = (Some e, w') \<Longrightarrow> \<exists>m x. e = Wrapped m x"
  by (auto simp: pass2Body_def split: option.splits dest!: andThen_error dest: wrapErr_error)

lemma removeUndesired_error:
  "removeUndesired E cs ds n w = (Some e, w') \<Longrightarrow> \<exists>m x. e = Wrapped m x"
  by (auto simp: removeUndesired_def split: if_splits dest: wrapErr_error)

lemma pass3Body_error: "pass3Body E cs ds n w = (Some e, w') \<Longrightarrow> \<exists>m x. e = Wrapped m x"
  by (auto simp: pass3Body_def split: option.splits
           dest!: andThen_error dest: wrapErr_error removeUndesired_error)

lemma Execute_error_Wrapped:
  assumes "currentState c = Some cs" and "Execute E ks1 ks2 ks3 c w = (Some e, w')"
  shows "\<exists>m x. e = Wrapped m x"
proof -
  from assms have "andThen (forEach (pass1Body E cs) ks1)
            (andThen (forEach (pass2Body E cs (desiredState c)) ks2)
                     (forEach (pass3Body E cs (desiredState c)) ks3)) w = (Some e, w')"
    by (simp add: Execute_def)
  then consider v where "forEach (pass1Body E cs) ks1 v = (Some e, w')"
    | v where "forEach (pass2Body E cs (desiredState c)) ks2 v = (Some e, w')"
    | v where "forEach (pass3Body E cs (desiredState c)) ks3 v = (Some e, w')"
    by (blast dest!: andThen_error)
  then show ?thesis
  proof cases
    case 1
    then show ?thesis by (blast dest: forEach_error pass1Body_error)
  next
    case 2
    then show ?thesis by (blast dest: forEach_error pass2Body_error)
  next
    case 3
    then show ?thesis by (blast dest: forEach_error pass3Body_error)
  qed
qed

lemma CheckCurrentState_sets_current:
  "CheckCurrentState E ks c w = (e, c', w') \<Longrightarrow>
     currentState c' = Some (case currentState c of None \<Rightarrow> previousState c | Some s \<Rightarrow> s) \<and>
     previousState c' = previousState c \<and> desiredState c' = desiredState c"
  by (auto simp: CheckCurrentState_def Let_def split: option.splits prod.splits)

section \<open>The precondition of Execute\<close>

text \<open>
  Claim C6. While \<open>currentState\<close> is nil, \<open>Execute\<close> returns the error "can't
  execute without knowing current state of the containers" and leaves the world
  as it is: no call is issued and no map or container changes. On the engine
  that a successful \<open>CheckCurrentState\<close> leaves, \<open>Execute\<close> never returns that
  error, in whatever world and order it runs.
\<close>

theorem Execute_needs_current_state:
  "(currentState c = None \<longrightarrow> Execute E ks1 ks2 ks3 c w = (Some NoCurrentState, w)) \<and>
   (CheckCurrentState E0 ks c w = (None, c', w') \<longrightarrow>
      fst (Execute E ks1 ks2 ks3 c' v) \<noteq> Some NoCurrentState)"
proof (intro conjI impI)
  assume "currentState c = None"
  then show "Execute E ks1 ks2 ks3 c w = (Some NoCurrentState, w)"
    by (simp add: Execute_def)
next
  assume "CheckCurrentState E0 ks c w = (None, c', w')"
  then obtain cs where cur: "currentState c' = Some cs"
    by (auto dest: CheckCurrentState_sets_current)
  show "fst (Execute E ks1 ks2 ks3 c' v) \<noteq> Some NoCurrentState"
  proof
    assume "fst (Execute E ks1 ks2 ks3 c' v) = Some NoCurrentState"
    then have "Execute E ks1 ks2 ks3 c' v = (Some NoCurrentState, snd (Execute E ks1 ks2 ks3 c' v))"
      by (rule pair_of_fst)
    from Execute_error_Wrapped [OF cur this] show False by simp
  qed
qed

theorem Execute_needs_current_state_witness:
  "currentState (fst (place exRemoval)) = None \<and>
   Execute exQuiet [''b''] [] [''b''] (fst (place exRemoval)) (snd (place exRemoval)) =
     (Some NoCurrentState, snd (place exRemoval)) \<and>
   fst (CheckCurrentState exQuiet [''b''] (fst (place exRemoval)) (snd (place exRemoval))) = None \<and>
   fst (Execute exQuiet [''b''] [] [''b'']
          (fst (snd (CheckCurrentState exQuiet [''b''] (fst (place exRemoval))
                       (snd (place exRemoval)))))
          (snd (snd (CheckCurrentState exQuiet [''b''] (fst (place exRemoval))
                       (snd (place exRemoval)))))) \<noteq> Some NoCurrentState"
proof -
  let ?c = "fst (place exRemoval)" and ?w = "snd (place exRemoval)"
  let ?r = "CheckCurrentState exQuiet [''b''] ?c ?w"
  have nil: "currentState ?c = None"
    by (simp add: place_def Let_def)
  have ok: "fst ?r = None"
    by code_simp
  then have run: "?r = (None, fst (snd ?r), snd (snd ?r))"
    by (rule triple_of_fst)
  from Execute_needs_current_state [of ?c exQuiet "[''b'']" "[]" "[''b'']" ?w exQuiet "[''b'']"
      "fst (snd ?r)" "snd (snd ?r)" "snd (snd ?r)"] nil ok run
  show ?thesis by simp
qed

section \<open>Validation of the exported configuration\<close>

text \<open>
  Claim C7. \<open>Validate\<close> returns an error, and \<open>New\<close> returns an error and no
  engine, for the nil receiver and for every value whose previous and desired
  state are each absent or an empty mapping (so in particular when both are
  absent and when both are empty). Both functions are functions of their
  argument alone: they take no world and issue no call.
\<close>

theorem Validate_rejects_empty:
  assumes "c = None \<or>
           (\<exists>cv. c = Some cv \<and>
                 (PreviousState cv = None \<or> PreviousState cv = Some []) \<and>
                 (DesiredState cv = None \<or> DesiredState cv = Some []))"
  shows "(\<exists>e. Validate valid c = Some e) \<and> (\<exists>e. Containers_New valid c = Inl e)"
proof -
  from assms have "\<exists>e. Validate valid c = Some e"
    by (auto simp: Validate_def ContainersState_New_def)
  then show ?thesis
    by (auto simp: Containers_New_def)
qed

theorem Validate_rejects_empty_witness:
  "(\<exists>e. Validate exValid None = Some e) \<and> (\<exists>e. Containers_New exValid None = Inl e) \<and>
   (\<exists>e. Validate exValid (Some \<lparr>PreviousState = None, DesiredState = None\<rparr>) = Some e) \<and>
   (\<exists>e. Containers_New exValid (Some \<lparr>PreviousState = None, DesiredState = None\<rparr>) = Inl e) \<and>
   (\<exists>e. Validate exValid (Some \<lparr>PreviousState = Some [], DesiredState = Some []\<rparr>) = Some e) \<and>
   (\<exists>e. Containers_New exValid (Some \<lparr>PreviousState = Some [], DesiredState = Some []\<rparr>) = Inl e)"
  using Validate_rejects_empty [of None exValid]
        Validate_rejects_empty [of "Some \<lparr>PreviousState = None, DesiredState = None\<rparr>" exValid]
        Validate_rejects_empty [of "Some \<lparr>PreviousState = Some [], DesiredState = Some []\<rparr>" exValid]
  by simp


section \<open>Decoding the persisted state\<close>

text \<open>
  Which keys match a field. For a key of ASCII bytes, matching is equality up
  to the case of the letters; the long s, which is not ASCII, matches an \<open>s\<close>.
\<close>

lemma equalFoldRight_ascii:
  assumes "\<forall>c \<in> set s. 65 \<le> caseMasked c \<and> caseMasked c \<le> 90"
    and "\<forall>c \<in> set t. of_char c < (128::nat)"
  shows "equalFoldRight s t \<longleftrightarrow> map caseMasked s = map caseMasked t"
  using assms
proof (induction s arbitrary: t)
  case Nil
  then show ?case by auto
next
  case (Cons sb s)
  show ?case
  proof (cases t)
    case Nil
    then show ?thesis by simp
  next
    case (Cons tb t')
    with Cons.prems Cons.IH [of t'] show ?thesis by auto
  qed
qed

lemma field_names_letters:
  "\<forall>c \<in> set ''previousState''. 65 \<le> caseMasked c \<and> caseMasked c \<le> 90"
  "\<forall>c \<in> set ''desiredState''. 65 \<le> caseMasked c \<and> caseMasked c \<le> 90"
  "map caseMasked ''previousState'' \<noteq> map caseMasked ''desiredState''"
  by code_simp+

lemma findField_ascii:
  assumes "\<forall>c \<in> set key. of_char c < (128::nat)"
  shows "findField key =
           (if map caseMasked key = map caseMasked ''previousState'' then Some FieldPreviousState
            else if map caseMasked key = map caseMasked ''desiredState'' then Some FieldDesiredState
            else None)"
proof -
  have p: "equalFoldRight ''previousState'' key \<longleftrightarrow>
             map caseMasked key = map caseMasked ''previousState''"
    unfolding equalFoldRight_ascii [OF field_names_letters(1) assms] by (rule eq_commute)
  have d: "equalFoldRight ''desiredState'' key \<longleftrightarrow>
             map caseMasked key = map caseMasked ''desiredState''"
    unfolding equalFoldRight_ascii [OF field_names_letters(2) assms] by (rule eq_commute)
  consider "key = ''previousState''" | "key = ''desiredState''"
    | "key \<noteq> ''previousState''" "key \<noteq> ''desiredState''"
    by blast
  then show ?thesis
  proof cases
    case 1
    have "findField ''previousState'' = Some FieldPreviousState" by code_simp
    with 1 show ?thesis by (simp only: if_True refl simp_thms)
  next
    case 2
    have "findField ''desiredState'' = Some FieldDesiredState" by code_simp
    with 2 field_names_letters(3) show ?thesis
      by (simp only: if_True if_False not_sym refl simp_thms)
  next
    case 3
    then have "map_of typeFields key = None"
      by (simp only: typeFields_def map_of.simps fst_conv snd_conv fun_upd_apply not_sym if_False)
    then show ?thesis
      by (simp only: findField_def option.case typeFields_def find.simps prod.case p d
            option.map if_distrib [of "map_option snd"] snd_conv)
  qed
qed

lemma findField_examples:
  "findField ''previousState'' = Some FieldPreviousState"
  "findField ''PreviousState'' = Some FieldPreviousState"
  "findField ''DESIREDSTATE'' = Some FieldDesiredState"
  "findField (''previou'' @ smallLongEss @ ''State'') = Some FieldPreviousState"
  "findField ''previous_state'' = None"
  "findField ''unknownField'' = None"
  by code_simp+

text \<open>
  A field may be written in any case, and of a repeated key the last value
  counts; two spellings of one field are decoded one after the other, in the
  order of the sorted keys, into the same map.
\<close>

lemma FromYaml_examples:
  "FromYaml exValid [(''PreviousState'', YContainers [(''b'', Some exRunning)])] =
     Inr \<lparr>enPrevious = [(''b'', exRunning)], enDesired = []\<rparr>"
  "FromYaml exValid [(''previousState'', YOther),
                     (''previousState'', YContainers [(''b'', Some exRunning)])] =
     Inr \<lparr>enPrevious = [(''b'', exRunning)], enDesired = []\<rparr>"
  "FromYaml exValid [(''previousState'', YContainers [(''b'', Some exRunning)]),
                     (''PreviousState'', YContainers [(''a'', Some exStopped)])] =
     Inr \<lparr>enPrevious = [(''a'', exStopped), (''b'', exRunning)], enDesired = []\<rparr>"
  "FromYaml exValid [(''previousState'', YNull),
                     (''PreviousState'', YContainers [(''a'', Some exStopped)])] =
     Inl (Wrapped ''failed to create containers object''
           (Wrapped ''failed to validate containers configuration'' NoStateDefined))"
  "FromYaml exValid [(''previousState'', YContainers [(''b'', Some exRunning)]),
                     (''unknownField'', YUnsupported)] =
     Inl (Wrapped ''failed to parse input yaml'' ParseError)"
  by code_simp+

lemma decodeObject_filter:
  "decodeObject (filter (\<lambda>(k, v). findField k \<noteq> None) kvs) c = decodeObject kvs c"
  by (induction kvs arbitrary: c) (auto split: option.splits field.splits sum.splits)

lemma lastWins_filter:
  "lastWins (filter (\<lambda>(k, v). P k) m) = filter (\<lambda>(k, v). P k) (lastWins m)"
proof -
  have f: "filter (\<lambda>(k, v). P k) xs = AList.restrict {k. P k} xs" for xs :: "('a \<times> 'b) list"
    by (auto simp: AList.restrict_eq intro: filter_cong)
  have r: "rev (AList.restrict A xs) = AList.restrict A (rev xs)" for A and xs :: "('a \<times> 'b) list"
    by (simp add: AList.restrict_eq rev_filter)
  have "lastWins (AList.restrict {k. P k} m) = AList.restrict {k. P k} (lastWins m)"
    by (simp add: lastWins_def r AList.clearjunk_restrict)
  then show ?thesis by (simp only: f)
qed

lemma lastWins_subset: "set (lastWins m) \<subseteq> set m"
proof -
  have "set (AList.clearjunk xs) \<subseteq> set xs" for xs :: "('a \<times> 'b) list"
    by (induction xs rule: AList.clearjunk.induct) (auto simp: AList.delete_eq)
  from this [of "rev m"] show ?thesis by (simp add: lastWins_def)
qed

lemma Unmarshal_filter:
  assumes "\<forall>(k, v) \<in> set doc. findField k = None \<longrightarrow> v \<noteq> YUnsupported"
  shows "Unmarshal (filter (\<lambda>(k, v). findField k \<noteq> None) doc) = Unmarshal doc"
proof -
  let ?known = "\<lambda>(k, v). findField k \<noteq> None"
  from assms lastWins_subset [of doc]
  have ok: "\<forall>(k, v) \<in> set (lastWins doc). findField k = None \<longrightarrow> v \<noteq> YUnsupported"
    by blast
  have "list_ex (\<lambda>(k, v). v = YUnsupported) (filter ?known (lastWins doc)) =
        list_ex (\<lambda>(k, v). v = YUnsupported) (lastWins doc)"
    using ok by (auto simp: list_ex_iff)
  then show ?thesis
    unfolding Unmarshal_def lastWins_filter Let_def filter_sort [symmetric] decodeObject_filter
    by simp
qed

text \<open>
  Claim C9, as the code has it. \<open>FromYaml\<close> does not look at the top-level
  fields whose name matches neither \<open>previousState\<close> nor \<open>desiredState\<close>, beyond
  converting their values to JSON: when none of these values is one that the
  conversion refuses, the document and the document without those fields give
  the same result, error or engine.
\<close>

theorem FromYaml_ignores_unknown_fields:
  assumes "\<forall>(k, v) \<in> set doc. findField k = None \<longrightarrow> v \<noteq> YUnsupported"
  shows "FromYaml valid doc = FromYaml valid (filter (\<lambda>(k, v). findField k \<noteq> None) doc)"
  unfolding FromYaml_def Unmarshal_filter [OF assms] ..

theorem FromYaml_ignores_unknown_fields_witness:
  "list_all (\<lambda>(k, v). v \<noteq> YUnsupported) exUnknownDoc \<and>
   filter (\<lambda>(k, v). findField k \<noteq> None) exUnknownDoc =
     [(''previousState'', YContainers [(''b'', Some exRunning)])] \<and>
   FromYaml exValid exUnknownDoc =
     FromYaml exValid [(''previousState'', YContainers [(''b'', Some exRunning)])]"
proof -
  have s: "list_all (\<lambda>(k, v). v \<noteq> YUnsupported) exUnknownDoc"
    by (simp add: exUnknownDoc_def)
  then have h: "\<forall>(k, v) \<in> set exUnknownDoc. findField k = None \<longrightarrow> v \<noteq> YUnsupported"
    by (auto simp: list_all_iff)
  have f: "filter (\<lambda>(k, v). findField k \<noteq> None) exUnknownDoc =
             [(''previousState'', YContainers [(''b'', Some exRunning)])]"
    by code_simp
  from FromYaml_ignores_unknown_fields [OF h, of exValid] s f show ?thesis
    by simp
qed

text \<open>
  Claim C9 as stated fails: the document below has the top-level field
  \<open>unknownField\<close>, which matches no field of \<open>Containers\<close>, and \<open>FromYaml\<close>
  returns an engine for it.
\<close>

theorem FromYaml_unknown_field_counterexample:
  "map_of exUnknownDoc ''unknownField'' = Some YOther \<and>
   findField ''unknownField'' = None \<and>
   FromYaml exValid exUnknownDoc = Inr \<lparr>enPrevious = [(''b'', exRunning)], enDesired = []\<rparr>"
  by code_simp

section \<open>The control plane\<close>

lemma validateEntries_names:
  "validateEntries valid m = Inr m' \<Longrightarrow> map fst m' = map fst m"
  by (induction m arbitrary: m') (auto split: option.splits if_splits sum.splits)

lemma Containers_New_desired_names:
  "Containers_New valid (Some cc) = Inr en \<Longrightarrow> DesiredState cc = Some m \<Longrightarrow>
     map fst (enDesired en) = map fst m"
  by (auto simp: Containers_New_def ContainersState_New_def
           split: option.splits sum.splits dest: validateEntries_names)

text \<open>
  Whenever \<open>Controlplane.New\<close> returns a control plane that holds a containers
  engine, the desired state of that engine has exactly the three names.
\<close>

lemma Controlplane_New_desired_names:
  assumes "Controlplane_New valid P c = Inr cp" and "cpContainers cp = Some en"
  shows "map fst (enDesired en) =
           [''kube-apiserver'', ''kube-controller-manager'', ''kube-scheduler'']"
proof -
  from assms obtain cc a b s where
    new: "Containers_New valid (Some cc) = Inr en" and
    des: "DesiredState cc = Some [(''kube-apiserver'', a), (''kube-controller-manager'', b),
                                  (''kube-scheduler'', s)]"
    by (auto simp: Controlplane_New_def Let_def dropError_def
             split: prod.splits option.splits sum.splits)
  from Containers_New_desired_names [OF new des] show ?thesis by simp
qed

text \<open>
  Claim C10 at a failing input. The configuration passes \<open>Validate\<close>, which looks
  at the three components only; its persisted state holds a container that
  fails validation, so the \<open>New\<close> of the containers fails, the error is dropped,
  and \<open>Controlplane.New\<close> returns a control plane without any engine: there is
  no desired state with the three names.
\<close>

theorem Controlplane_New_invalid_state:
  "fst (Controlplane_Validate exComponents exControlplane) = None \<and>
   \<not> exValid emptyHcc \<and>
   Controlplane_New exValid exComponents exControlplane = Inr \<lparr>cpContainers = None\<rparr>"
  by (simp add: Controlplane_New_def Controlplane_Validate_def exComponents_def
        exControlplane_def collect_def Return_def dropError_def Containers_New_def Validate_def
        ContainersState_New_def exValid_def emptyHcc_def exRunning_def Let_def)

section \<open>Removal of a container that is no longer desired\<close>

text \<open>
  Claim C1 at a failing input. The previous state holds the running container
  \<open>b\<close> and the desired state is empty. \<open>CheckCurrentState\<close> succeeds; \<open>Execute\<close>
  then fails in Pass 3 on \<open>ensureHost\<close>, whose \<open>diffHost\<close> refuses a name that is
  not in the desired state. The only call issued is the refresh: there is no
  \<open>RemoveContainer\<close>, and \<open>b\<close> is still in the current state.
\<close>

theorem Execute_removal_fails:
  "fst (CheckCurrentState exQuiet [''b''] (fst (place exRemoval)) (snd (place exRemoval))) = None \<and>
   (let c = fst (snd (CheckCurrentState exQuiet [''b''] (fst (place exRemoval))
                        (snd (place exRemoval))));
        w = snd (snd (CheckCurrentState exQuiet [''b''] (fst (place exRemoval))
                        (snd (place exRemoval))));
        r = Execute exQuiet [''b''] [] [''b''] c w
    in map_option (objs w) (maps w 0 ''b'') = Some exRunning \<and>
       maps w (desiredState c) ''b'' = None \<and>
       fst r = Some (Wrapped ''failed updating host configuration of container''
                      (Wrapped ''failed to check host diff''
                        (Wrapped ''cannot diff container'' (UpdateScheduledForRemoval ''b'')))) \<and>
       trace (snd r) = [CallStatus 0] \<and>
       maps (snd r) 0 ''b'' = Some 0)"
  by code_simp

section \<open>The previous state and the current state are one mapping\<close>







section \<open>Every step for a name stays within that name\<close>

lemma within_refl: "owned nm cs ds w \<Longrightarrow> within nm cs ds m w w"
  by (simp add: within_def)

lemma within_trans:
  "within nm cs ds m w w1 \<Longrightarrow> within nm cs ds m w1 w2 \<Longrightarrow> within nm cs ds m w w2"
  unfolding within_def by (elim conjE exE) (auto simp: ball_Un)

lemma within_owned: "within nm cs ds m w w' \<Longrightarrow> owned nm cs ds w'"
  by (simp add: within_def)

lemma within_andThen:
  assumes "andThen f g w = (e, w')"
    and "\<And>e1 w1. f w = (e1, w1) \<Longrightarrow> within nm cs ds m w w1"
    and "\<And>w1 e2 w2. f w = (None, w1) \<Longrightarrow> g w1 = (e2, w2) \<Longrightarrow> within nm cs ds m w1 w2"
  shows "within nm cs ds m w w'"
proof (cases "f w")
  case (Pair e1 w1)
  show ?thesis
  proof (cases e1)
    case None
    with Pair assms(1) have "g w1 = (e, w')" by (simp add: andThen_def)
    with assms(2,3) Pair None show ?thesis by (blast intro: within_trans)
  next
    case (Some x)
    with Pair assms(1) have "w' = w1" by (simp add: andThen_def)
    with assms(2) Pair show ?thesis by blast
  qed
qed

lemma within_wrapErr:
  "wrapErr msg f w = (e, w') \<Longrightarrow> (\<And>e1. f w = (e1, w') \<Longrightarrow> within nm cs ds m w w') \<Longrightarrow>
     within nm cs ds m w w'"
  by (auto simp: wrapErr_def split: prod.splits option.splits)

lemma within_CreateAndStart:
  assumes "owned nm cs ds w" and "CreateAndStart E ds m w = (e, w')"
  shows "within nm cs ds m w w'"
  using assms
  by (auto simp: CreateAndStart_def andThen_def prim_def updObj_def within_def owned_def
           split: option.splits prod.splits if_splits)

lemma within_RemoveContainer:
  assumes "owned nm cs ds w" and "RemoveContainer E cs m w = (e, w')"
  shows "within nm cs ds m w w'"
  using assms
  by (auto simp: RemoveContainer_def andThen_def prim_def setEntry_def within_def owned_def
           split: option.splits prod.splits if_splits)

lemma within_ensureConfigured:
  assumes "owned nm cs ds w" and "ensureConfigured E cs ds m w = (e, w')"
  shows "within nm cs ds m w w'"
  using assms
  by (auto simp: ensureConfigured_def Configure_def andThen_def wrapErr_def prim_def
                 setEntry_def updObj_def within_def owned_def Let_def
           split: option.splits prod.splits if_splits)

lemma within_ensureRunning:
  assumes "owned nm cs ds w" and "nm a = m" and "ensureRunning E (Some a) w = (e, w')"
  shows "within nm cs ds m w w'"
  using assms
  by (auto simp: ensureRunning_def Start_result updObj_def within_def owned_def split: if_splits)

lemma within_ensureExists:
  assumes "owned nm cs ds w" and "ensureExists E cs ds m w = (e, w')"
  shows "within nm cs ds m w w'"
  using assms
  by (auto simp: ensureExists_def CreateAndStart_def andThen_def wrapErr_def prim_def
                 setEntry_def updObj_def within_def owned_def Let_def
           split: option.splits prod.splits if_splits)

lemma within_recreate:
  assumes "owned nm cs ds w" and "recreate E cs ds m w = (e, w')"
  shows "within nm cs ds m w w'"
  using assms(2) unfolding recreate_def
proof (rule within_andThen)
  fix e1 w1
  assume "wrapErr ''failed removing old container'' (RemoveContainer E cs m) w = (e1, w1)"
  then show "within nm cs ds m w w1"
    by (rule within_wrapErr) (rule within_RemoveContainer [OF assms(1)])
next
  fix w1 e2 w2
  assume "wrapErr ''failed removing old container'' (RemoveContainer E cs m) w = (None, w1)"
  then have "within nm cs ds m w w1"
    by (rule within_wrapErr) (rule within_RemoveContainer [OF assms(1)])
  then have "owned nm cs ds w1" by (rule within_owned)
  moreover assume "CreateAndStart E ds m w1 = (e2, w2)"
  ultimately show "within nm cs ds m w1 w2" by (rule within_CreateAndStart)
qed

lemma within_adoptDesired:
  "owned nm cs ds w \<Longrightarrow> within nm cs ds m w (adoptDesired cs ds m w)"
  by (auto simp: adoptDesired_def setEntry_def within_def owned_def)

lemma within_recreate_adopt:
  assumes "owned nm cs ds w"
    and "andThen (wrapErr msg (recreate E cs ds m)) (\<lambda>w'. (None, adoptDesired cs ds m w')) w = (e, w')"
  shows "within nm cs ds m w w'"
  using assms(2)
proof (rule within_andThen)
  fix e1 w1
  assume "wrapErr msg (recreate E cs ds m) w = (e1, w1)"
  then show "within nm cs ds m w w1"
    by (rule within_wrapErr) (rule within_recreate [OF assms(1)])
next
  fix w1 e2 w2
  assume "wrapErr msg (recreate E cs ds m) w = (None, w1)"
  then have "within nm cs ds m w w1"
    by (rule within_wrapErr) (rule within_recreate [OF assms(1)])
  then have "owned nm cs ds w1" by (rule within_owned)
  moreover assume "(None, adoptDesired cs ds m w1) = (e2, w2)"
  ultimately show "within nm cs ds m w1 w2" by (auto intro: within_adoptDesired)
qed

lemma within_ensureHost:
  assumes "owned nm cs ds w" and "ensureHost E cs ds m w = (e, w')"
  shows "within nm cs ds m w w'"
  using assms
  by (auto simp: ensureHost_def within_refl split: sum.splits if_splits
           intro: within_recreate_adopt)

lemma within_ensureContainer:
  assumes "owned nm cs ds w" and "ensureContainer E cs ds m w = (e, w')"
  shows "within nm cs ds m w w'"
  using assms
  by (auto simp: ensureContainer_def within_refl split: sum.splits if_splits
           intro: within_recreate_adopt)

lemma within_removeUndesired:
  assumes "owned nm cs ds w" and "removeUndesired E cs ds m w = (e, w')"
  shows "within nm cs ds m w w'"
  using assms
  by (auto simp: removeUndesired_def within_refl split: if_splits
           elim!: within_wrapErr intro: within_RemoveContainer)

lemma within_pass1Body:
  assumes "owned nm cs ds w" and "pass1Body E cs m w = (e, w')"
  shows "within nm cs ds m w w'"
proof (cases "maps w cs m")
  case None
  with assms show ?thesis by (simp add: pass1Body_def within_refl)
next
  case (Some r)
  with assms(1) have r: "nm r = m" by (simp add: owned_def)
  show ?thesis
  proof (cases "Exists (objs w r)")
    case True
    with assms(2) Some
    have "wrapErr ''failed to start stopped container'' (ensureRunning E (Some r)) w = (e, w')"
      by (simp add: pass1Body_def)
    then show ?thesis
      by (rule within_wrapErr) (rule within_ensureRunning [OF assms(1) r])
  next
    case False
    with assms(2) Some have "w' = setEntry cs m None w"
      by (simp add: pass1Body_def)
    with assms(1) show ?thesis
      by (auto simp: setEntry_def within_def owned_def)
  qed
qed

lemma within_pass2Body:
  assumes "owned nm cs ds w" and "pass2Body E cs ds m w = (e, w')"
  shows "within nm cs ds m w w'"
proof (cases "maps w ds m")
  case None
  with assms show ?thesis by (simp add: pass2Body_def within_refl)
next
  case (Some d)
  with assms(2) have
    "andThen (wrapErr ''failed configuring container'' (ensureConfigured E cs ds m))
             (wrapErr ''failed creating new container'' (ensureExists E cs ds m)) w = (e, w')"
    by (simp add: pass2Body_def)
  then show ?thesis
  proof (rule within_andThen)
    fix e1 w1
    assume "wrapErr ''failed configuring container'' (ensureConfigured E cs ds m) w = (e1, w1)"
    then show "within nm cs ds m w w1"
      by (rule within_wrapErr) (rule within_ensureConfigured [OF assms(1)])
  next
    fix w1 e2 w2
    assume "wrapErr ''failed configuring container'' (ensureConfigured E cs ds m) w = (None, w1)"
    then have "within nm cs ds m w w1"
      by (rule within_wrapErr) (rule within_ensureConfigured [OF assms(1)])
    then have o: "owned nm cs ds w1" by (rule within_owned)
    assume "wrapErr ''failed creating new container'' (ensureExists E cs ds m) w1 = (e2, w2)"
    then show "within nm cs ds m w1 w2"
      by (rule within_wrapErr) (rule within_ensureExists [OF o])
  qed
qed

lemma within_step:
  assumes "wrapErr msg f w = (e, w')"
    and "\<And>e1. f w = (e1, w') \<Longrightarrow> within nm cs ds m w w'"
  shows "within nm cs ds m w w' \<and> owned nm cs ds w'"
proof -
  have "within nm cs ds m w w'"
    using assms(1) by (rule within_wrapErr) (rule assms(2))
  then show ?thesis by (simp add: within_owned)
qed

lemma within_pass3Body:
  assumes "owned nm cs ds w" and "pass3Body E cs ds m w = (e, w')"
  shows "within nm cs ds m w w'"
proof (cases "maps w cs m")
  case None
  with assms show ?thesis by (simp add: pass3Body_def within_refl)
next
  case (Some r)
  with assms(2) have
    "andThen (wrapErr ''failed updating host configuration of container'' (ensureHost E cs ds m))
       (andThen (wrapErr ''failed updating configuration for container''
                   (ensureConfigured E cs ds m))
          (andThen (wrapErr ''failed updating container'' (ensureContainer E cs ds m))
                   (removeUndesired E cs ds m))) w = (e, w')"
    by (simp add: pass3Body_def)
  then show ?thesis
  proof (rule within_andThen)
    fix e1 w1
    assume "wrapErr ''failed updating host configuration of container''
              (ensureHost E cs ds m) w = (e1, w1)"
    then show "within nm cs ds m w w1"
      by (rule within_wrapErr) (rule within_ensureHost [OF assms(1)])
  next
    fix w1 e2 w2
    assume "wrapErr ''failed updating host configuration of container''
              (ensureHost E cs ds m) w = (None, w1)"
    then have o1: "owned nm cs ds w1"
      by (blast dest: within_step intro: within_ensureHost [OF assms(1)])
    assume "andThen (wrapErr ''failed updating configuration for container''
                       (ensureConfigured E cs ds m))
              (andThen (wrapErr ''failed updating container'' (ensureContainer E cs ds m))
                       (removeUndesired E cs ds m)) w1 = (e2, w2)"
    then show "within nm cs ds m w1 w2"
    proof (rule within_andThen)
      fix e3 w3
      assume "wrapErr ''failed updating configuration for container''
                (ensureConfigured E cs ds m) w1 = (e3, w3)"
      then show "within nm cs ds m w1 w3"
        by (rule within_wrapErr) (rule within_ensureConfigured [OF o1])
    next
      fix w3 e4 w4
      assume "wrapErr ''failed updating configuration for container''
                (ensureConfigured E cs ds m) w1 = (None, w3)"
      then have o3: "owned nm cs ds w3"
        by (blast dest: within_step intro: within_ensureConfigured [OF o1])
      assume "andThen (wrapErr ''failed updating container'' (ensureContainer E cs ds m))
                (removeUndesired E cs ds m) w3 = (e4, w4)"
      then show "within nm cs ds m w3 w4"
      proof (rule within_andThen)
        fix e5 w5
        assume "wrapErr ''failed updating container'' (ensureContainer E cs ds m) w3 = (e5, w5)"
        then show "within nm cs ds m w3 w5"
          by (rule within_wrapErr) (rule within_ensureContainer [OF o3])
      next
        fix w5 e6 w6
        assume "wrapErr ''failed updating container'' (ensureContainer E cs ds m) w3 = (None, w5)"
        then have o5: "owned nm cs ds w5"
          by (blast dest: within_step intro: within_ensureContainer [OF o3])
        assume "removeUndesired E cs ds m w5 = (e6, w6)"
        with o5 show "within nm cs ds m w5 w6" by (rule within_removeUndesired)
      qed
    qed
  qed
qed


section \<open>Rules for loops and sequences\<close>

lemma forEach_invariant:
  assumes "forEach body ks w = (e, w')" and "I w"
    and step: "\<And>k v e1 v1. I v \<Longrightarrow> body k v = (e1, v1) \<Longrightarrow> (e1 = None \<longrightarrow> I v1) \<and> Q v1"
    and weak: "\<And>v. I v \<Longrightarrow> Q v"
  shows "(e = None \<longrightarrow> I w') \<and> Q w'"
  using assms(1,2)
proof (induction ks arbitrary: w)
  case Nil
  then show ?case by (auto intro: weak)
next
  case (Cons k ks)
  obtain e1 v1 where b: "body k w = (e1, v1)" by (metis prod.exhaust)
  from step [OF Cons.prems(2) b] have s: "e1 = None \<longrightarrow> I v1" "Q v1" by simp_all
  show ?case
  proof (cases e1)
    case None
    with b Cons.prems(1) have "forEach body ks v1 = (e, w')" by (simp add: andThen_def)
    with s None show ?thesis using Cons.IH by blast
  next
    case (Some x)
    with b Cons.prems(1) have "e = Some x" "w' = v1" by (simp_all add: andThen_def)
    with s show ?thesis by simp
  qed
qed

lemma forEach_reaches:
  assumes "forEach body ks w = (None, w')" and "n \<in> set ks" and "I w"
    and inv: "\<And>k v v1. k \<noteq> n \<Longrightarrow> I v \<Longrightarrow> body k v = (None, v1) \<Longrightarrow> I v1"
    and est: "\<And>v v1. I v \<Longrightarrow> body n v = (None, v1) \<Longrightarrow> B v1"
    and pres: "\<And>k v v1. B v \<Longrightarrow> body k v = (None, v1) \<Longrightarrow> B v1"
  shows "B w'"
proof -
  have keep: "B v \<Longrightarrow> forEach body ks v = (None, v') \<Longrightarrow> B v'" for ks v v'
  proof (induction ks arbitrary: v)
    case Nil
    then show ?case by simp
  next
    case (Cons k ks)
    from Cons.prems(2) obtain v1 where "body k v = (None, v1)" "forEach body ks v1 = (None, v')"
      by (auto simp: andThen_def split: prod.splits option.splits)
    with Cons.prems(1) Cons.IH pres show ?case by blast
  qed
  from assms(1,2,3) show ?thesis
  proof (induction ks arbitrary: w)
    case Nil
    then show ?case by simp
  next
    case (Cons k ks)
    from Cons.prems(1) obtain v1 where b: "body k w = (None, v1)"
      and r: "forEach body ks v1 = (None, w')"
      by (auto simp: andThen_def split: prod.splits option.splits)
    show ?case
    proof (cases "k = n")
      case True
      with b Cons.prems(3) have "B v1" by (blast intro: est)
      then show ?thesis using r by (rule keep)
    next
      case False
      with Cons.prems(2) have "n \<in> set ks" by simp
      moreover from False Cons.prems(3) b have "I v1" by (rule inv)
      ultimately show ?thesis using r Cons.IH by blast
    qed
  qed
qed

lemma andThen_cases:
  assumes "andThen f g w = (e, w')"
  obtains (stop) x where "f w = (Some x, w')" "e = Some x"
        | (go) v where "f w = (None, v)" "g v = (e, w')"
  using assms by (auto simp: andThen_def split: prod.splits option.splits)

section \<open>Steps for other names\<close>

lemma belongs_unique: "belongs nm m k \<Longrightarrow> belongs nm n k \<Longrightarrow> m = n"
  by (cases k) auto

lemma within_other:
  assumes "within nm cs ds m w w'" and "m \<noteq> n"
  shows "maps w' cs n = maps w cs n" and "maps w' ds n = maps w ds n"
    and "\<And>a. nm a = n \<Longrightarrow> objs w' a = objs w a"
    and "\<exists>t. trace w' = trace w @ t \<and> (\<forall>k \<in> set t. \<not> belongs nm n k)"
proof -
  from assms(1) have ne: "cs \<noteq> ds" by (simp add: within_def owned_def)
  from assms show "maps w' cs n = maps w cs n" by (simp add: within_def)
  from assms(1) ne show "maps w' ds n = maps w ds n" by (simp add: within_def)
  from assms show "\<And>a. nm a = n \<Longrightarrow> objs w' a = objs w a" by (simp add: within_def)
  from assms(1) obtain t where t: "trace w' = trace w @ t" "\<forall>k \<in> set t. belongs nm m k"
    unfolding within_def by blast
  from t(2) assms(2) have "\<forall>k \<in> set t. \<not> belongs nm n k"
    by (blast dest: belongs_unique)
  with t(1) show "\<exists>t. trace w' = trace w @ t \<and> (\<forall>k \<in> set t. \<not> belongs nm n k)"
    by blast
qed

lemma configured_other: "\<not> belongs nm n k \<Longrightarrow> nm d = n \<Longrightarrow> configured d k = []"
  by (cases k) auto

lemma filesWritten_other:
  "\<forall>k \<in> set t. \<not> belongs nm n k \<Longrightarrow> nm d = n \<Longrightarrow> filesWritten d t = []"
  by (auto simp: filesWritten_def dest: configured_other)

lemma filesWritten_append [simp]: "filesWritten d (s @ t) = filesWritten d s @ filesWritten d t"
  by (simp add: filesWritten_def)

lemma driftInv_other:
  assumes "driftInv nm cs ds n r d w0 b w" and "within nm cs ds m w w'" and "m \<noteq> n"
  shows "driftInv nm cs ds n r d w0 b w'"
proof -
  from assms(1) have r: "nm r = n" and d: "nm d = n"
    by (auto simp: driftInv_def owned_def)
  from within_other [OF assms(2,3)] r d obtain t2 where
    eq: "maps w' cs n = maps w cs n" "maps w' ds n = maps w ds n"
        "objs w' r = objs w r" "objs w' d = objs w d"
    and t2: "trace w' = trace w @ t2" "\<forall>k \<in> set t2. \<not> belongs nm n k"
    by blast
  from t2(2) d have fw: "filesWritten d t2 = []" by (rule filesWritten_other)
  from assms(1) obtain t where t: "trace w = trace w0 @ t"
    "\<forall>k \<in> set t. belongs nm n k \<longrightarrow> (\<exists>fs. k = CallConfigure d fs)"
    "if b then filesWritten d t = filesToUpdate (objs w0 d) (Some (objs w0 r)) \<and>
                     configFiles (objs w r) = configFiles (objs w0 d)
           else filesWritten d t = [] \<and> configFiles (objs w r) = configFiles (objs w0 r)"
    unfolding driftInv_def by blast
  have "trace w' = trace w0 @ (t @ t2)" using t(1) t2(1) by simp
  moreover have "\<forall>k \<in> set (t @ t2). belongs nm n k \<longrightarrow> (\<exists>fs. k = CallConfigure d fs)"
    using t(2) t2(2) by auto
  moreover have "if b then filesWritten d (t @ t2) = filesToUpdate (objs w0 d) (Some (objs w0 r)) \<and>
                     configFiles (objs w' r) = configFiles (objs w0 d)
           else filesWritten d (t @ t2) = [] \<and> configFiles (objs w' r) = configFiles (objs w0 r)"
    using t(3) fw eq by simp
  ultimately show ?thesis
    using assms(1) eq within_owned [OF assms(2)] unfolding driftInv_def by metis
qed

lemma driftInv_Post: "driftInv nm cs ds n r d w0 b w \<Longrightarrow> driftPost nm cs ds n r d w0 w"
  unfolding driftInv_def driftPost_def by (cases b) auto


lemma andThen_None:
  "andThen f g w = (None, w') \<Longrightarrow> \<exists>v. f w = (None, v) \<and> g v = (None, w')"
  by (auto simp: andThen_def split: prod.splits option.splits)



lemma forEach_always:
  assumes "forEach body ks w = (e, w')" and "I w"
    and "\<And>k v e1 v1. I v \<Longrightarrow> body k v = (e1, v1) \<Longrightarrow> I v1"
  shows "I w'"
  using assms(1,2)
proof (induction ks arbitrary: w)
  case Nil
  then show ?case by simp
next
  case (Cons k ks)
  from Cons.prems(1) have "andThen (body k) (forEach body ks) w = (e, w')" by simp
  then show ?case
  proof (cases rule: andThen_cases)
    case (stop x)
    with Cons.prems(2) assms(3) show ?thesis by blast
  next
    case (go v)
    with Cons.prems(2) assms(3) Cons.IH show ?thesis by blast
  qed
qed


section \<open>Engines as New and CheckCurrentState leave them\<close>

lemma place_owned: "owned (placeName en) 0 1 (snd (place en))"
proof -
  let ?p = "AList.clearjunk (enPrevious en)" and ?d = "AList.clearjunk (enDesired en)"
  have p: "placeName en a = n" if "map_of (zip (map fst ?p) [0 ..< length ?p]) n = Some a" for n a
  proof -
    from that have "(n, a) \<in> set (zip (map fst ?p) [0 ..< length ?p])" by (rule map_of_SomeD)
    then obtain i where "i < length ?p" "map fst ?p ! i = n" "[0 ..< length ?p] ! i = a"
      by (auto simp: set_zip)
    then show ?thesis by (simp add: placeName_def)
  qed
  have d: "placeName en a = n"
    if "map_of (zip (map fst ?d) [length ?p ..< length ?p + length ?d]) n = Some a" for n a
  proof -
    from that have "(n, a) \<in> set (zip (map fst ?d) [length ?p ..< length ?p + length ?d])"
      by (rule map_of_SomeD)
    then obtain i where "i < length ?d" "map fst ?d ! i = n"
      "[length ?p ..< length ?p + length ?d] ! i = a"
      by (auto simp: set_zip)
    then have "a = length ?p + i" "fst (?d ! i) = n" by simp_all
    then show ?thesis by (simp add: placeName_def)
  qed
  show ?thesis
    unfolding owned_def place_def Let_def using p d by simp
qed

lemma refresh_maps: "refresh E a w = (e, w') \<Longrightarrow> maps w' = maps w"
  by (auto simp: refresh_def andThen_def prim_def updObj_def split: if_splits)

lemma CheckState_maps: "CheckState E s ks w = (e, w') \<Longrightarrow> maps w' = maps w"
  unfolding CheckState_def
proof (erule forEach_always [where I = "\<lambda>v. maps v = maps w"])
  show "maps w = maps w" ..
next
  fix k v e1 v1
  assume "maps v = maps w"
    and "(case maps v s k of None \<Rightarrow> (None, v)
          | Some a \<Rightarrow> wrapErr ''failed checking container state'' (refresh E a) v) = (e1, v1)"
  then show "maps v1 = maps w"
    by (auto simp: wrapErr_def split: option.splits prod.splits dest: refresh_maps)
qed

text \<open>
  Every engine that \<open>New\<close> returns, placed in its world and refreshed by
  \<open>CheckCurrentState\<close>, has a current state and satisfies the ownership that the
  theorems on \<open>Execute\<close> assume.
\<close>

lemma checked_engine_owned:
  assumes "CheckCurrentState E ks (fst (place en)) (snd (place en)) = (e, c, w)"
  shows "currentState c = Some 0 \<and> desiredState c = 1 \<and> owned (placeName en) 0 1 w"
proof -
  from assms have "currentState c = Some 0" "desiredState c = 1"
    and "CheckState E 0 ks (snd (place en)) = (e, w)"
    by (auto simp: CheckCurrentState_def place_def Let_def split: prod.splits)
  moreover from this(3) have "maps w = maps (snd (place en))" by (rule CheckState_maps)
  moreover note place_owned [of en]
  ultimately show ?thesis by (simp add: owned_def)
qed


lemma zip_lookup:
  assumes "distinct (map fst p)"
  shows "map_option (\<lambda>a. snd (p ! (a - b))) (map_of (zip (map fst p) [b ..< b + length p]) n)
           = map_of p n"
proof (cases "n \<in> fst ` set p")
  case False
  then have "map_of p n = None" by (simp add: map_of_eq_None_iff)
  moreover from False have "map_of (zip (map fst p) [b ..< b + length p]) n = None"
    by (simp add: map_of_zip_is_None)
  ultimately show ?thesis by simp
next
  case True
  then obtain i where i: "i < length p" "fst (p ! i) = n"
    by (auto simp: in_set_conv_nth)
  then have "map_of (zip (map fst p) [b ..< b + length p]) (map fst p ! i)
               = Some ([b ..< b + length p] ! i)"
    using assms by (intro map_of_zip_nth) simp_all
  with i have z: "map_of (zip (map fst p) [b ..< b + length p]) n = Some (b + i)" by simp
  from i have "(n, snd (p ! i)) \<in> set p"
    by (metis nth_mem prod.collapse)
  with assms have "map_of p n = Some (snd (p ! i))" by (rule map_of_is_SomeI)
  with z show ?thesis by simp
qed

text \<open>
  The world of \<open>place\<close> holds the engine: read by value, map 0 is the validated
  previous state and map 1 the validated desired state.
\<close>

lemma place_Export:
  "Export (snd (place en)) 0 = map_of (enPrevious en)"
  "Export (snd (place en)) 1 = map_of (enDesired en)"
proof -
  let ?p = "AList.clearjunk (enPrevious en)" and ?d = "AList.clearjunk (enDesired en)"
  have dp: "distinct (map fst ?p)" and dd: "distinct (map fst ?d)"
    by (rule distinct_clearjunk)+
  show "Export (snd (place en)) 0 = map_of (enPrevious en)"
  proof
    fix n
    have "Export (snd (place en)) 0 n =
          map_option (objs (snd (place en))) (map_of (zip (map fst ?p) [0 ..< length ?p]) n)"
      by (simp add: Export_def place_def Let_def)
    also have "\<dots> =
          map_option (\<lambda>a. snd (?p ! (a - 0))) (map_of (zip (map fst ?p) [0 ..< 0 + length ?p]) n)"
    proof (rule map_option_cong)
      fix a assume "map_of (zip (map fst ?p) [0 ..< 0 + length ?p]) n = Some a"
      then have "a < length ?p" by (auto dest!: map_of_SomeD simp: set_zip)
      then show "objs (snd (place en)) a = snd (?p ! (a - 0))"
        by (simp add: place_def Let_def)
    qed simp
    also have "\<dots> = map_of ?p n" using dp by (rule zip_lookup)
    finally show "Export (snd (place en)) 0 n = map_of (enPrevious en) n"
      by (simp add: map_of_clearjunk)
  qed
  show "Export (snd (place en)) 1 = map_of (enDesired en)"
  proof
    fix n
    have "Export (snd (place en)) 1 n =
          map_option (objs (snd (place en)))
            (map_of (zip (map fst ?d) [length ?p ..< length ?p + length ?d]) n)"
      by (simp add: Export_def place_def Let_def)
    also have "\<dots> =
          map_option (\<lambda>a. snd (?d ! (a - length ?p)))
            (map_of (zip (map fst ?d) [length ?p ..< length ?p + length ?d]) n)"
    proof (rule map_option_cong)
      fix a assume "map_of (zip (map fst ?d) [length ?p ..< length ?p + length ?d]) n = Some a"
      then have "length ?p \<le> a \<and> a < length ?p + length ?d"
        by (auto dest!: map_of_SomeD simp: set_zip)
      then show "objs (snd (place en)) a = snd (?d ! (a - length ?p))"
        by (simp add: place_def Let_def)
    qed simp
    also have "\<dots> = map_of ?d n" using dd by (rule zip_lookup)
    finally show "Export (snd (place en)) 1 n = map_of (enDesired en) n"
      by (simp add: map_of_clearjunk)
  qed
qed


section \<open>A name that is no longer desired\<close>

lemma undesired_other:
  assumes "undesired nm cs ds n r w0 w" and "within nm cs ds m w w'" and "m \<noteq> n"
  shows "undesired nm cs ds n r w0 w'"
proof -
  from assms(1) have r: "nm r = n" by (auto simp: undesired_def owned_def)
  from within_other [OF assms(2,3)] r obtain t2 where
    eq: "maps w' cs n = maps w cs n" "maps w' ds n = maps w ds n" "objs w' r = objs w r"
    and t2: "trace w' = trace w @ t2" "\<forall>k \<in> set t2. \<not> belongs nm n k"
    by blast
  from t2(2) have no: "CallRemoveContainer n \<notin> set t2" by fastforce
  from assms(1) obtain t where t: "trace w = trace w0 @ t" "CallRemoveContainer n \<notin> set t"
    unfolding undesired_def by blast
  have "trace w' = trace w0 @ (t @ t2)" "CallRemoveContainer n \<notin> set (t @ t2)"
    using t t2(1) no by simp_all
  then show ?thesis
    using assms(1) eq within_owned [OF assms(2)] unfolding undesired_def by metis
qed

lemma undesired_pass1:
  assumes "undesired nm cs ds n r w0 w" and "pass1Body E cs n w = (e, w')"
  shows "undesired nm cs ds n r w0 w'"
  using assms
  by (auto simp: undesired_def pass1Body_def ensureRunning_def Start_result updObj_def wrapErr_def
                 Exists_def owned_def
           split: if_splits)

lemma undesired_pass2:
  assumes "undesired nm cs ds n r w0 w" and "pass2Body E cs ds n w = (e, w')"
  shows "w' = w"
  using assms by (simp add: undesired_def pass2Body_def)

lemma undesired_pass3:
  assumes "undesired nm cs ds n r w0 w" and "pass3Body E cs ds n w = (e, w')"
  shows "w' = w \<and>
         e = Some (Wrapped ''failed updating host configuration of container''
                    (Wrapped ''failed to check host diff''
                      (Wrapped ''cannot diff container'' (UpdateScheduledForRemoval n))))"
  using assms
  by (auto simp: undesired_def pass3Body_def ensureHost_def diffHost_def isUpdatable_def
                 andThen_def wrapErr_def)

text \<open>
  For every name that is in the current state with an existing container and
  not in the desired state: whatever \<open>Execute\<close> returns, it has issued no
  \<open>RemoveContainer\<close> for the name and the name is still in the current state; and
  when Pass 3 visits the name, \<open>Execute\<close> does not succeed.
\<close>

lemma Execute_never_removes:
  assumes cur: "currentState c = Some cs" and own: "owned nm cs (desiredState c) w"
    and r: "maps w cs n = Some r" and ex: "Exists (objs w r)"
    and d: "maps w (desiredState c) n = None"
    and run: "Execute E ks1 ks2 ks3 c w = (e, w')"
  shows "CallRemoveContainer n \<notin> set (callsSince w w') \<and> maps w' cs n = Some r \<and>
         (n \<in> set ks3 \<longrightarrow> e \<noteq> None)"
proof -
  let ?ds = "desiredState c"
  let ?U = "undesired nm cs ?ds n r w"
  let ?P1 = "forEach (pass1Body E cs) ks1"
  let ?P2 = "forEach (pass2Body E cs ?ds) ks2"
  let ?P3 = "forEach (pass3Body E cs ?ds) ks3"
  have start: "?U w" using own r ex d by (simp add: undesired_def)
  have u1: "?U v1" if "?U v" "pass1Body E cs k v = (e1, v1)" for k v e1 v1
  proof (cases "k = n")
    case True
    with that show ?thesis by (auto intro: undesired_pass1)
  next
    case False
    from that(1) have "owned nm cs ?ds v" by (simp add: undesired_def)
    then have "within nm cs ?ds k v v1" using that(2) by (rule within_pass1Body)
    with that(1) show ?thesis using False by (rule undesired_other)
  qed
  have u2: "?U v1" if "?U v" "pass2Body E cs ?ds k v = (e1, v1)" for k v e1 v1
  proof (cases "k = n")
    case True
    with that undesired_pass2 [of nm cs ?ds n r w v E e1 v1] show ?thesis by simp
  next
    case False
    from that(1) have "owned nm cs ?ds v" by (simp add: undesired_def)
    then have "within nm cs ?ds k v v1" using that(2) by (rule within_pass2Body)
    with that(1) show ?thesis using False by (rule undesired_other)
  qed
  have u3: "?U v1" if "?U v" "pass3Body E cs ?ds k v = (e1, v1)" for k v e1 v1
  proof (cases "k = n")
    case True
    with that undesired_pass3 [of nm cs ?ds n r w v E e1 v1] show ?thesis by simp
  next
    case False
    from that(1) have "owned nm cs ?ds v" by (simp add: undesired_def)
    then have "within nm cs ?ds k v v1" using that(2) by (rule within_pass3Body)
    with that(1) show ?thesis using False by (rule undesired_other)
  qed
  from run cur have all: "andThen ?P1 (andThen ?P2 ?P3) w = (e, w')"
    by (simp add: Execute_def)
  have "?U w'"
    using all
  proof (cases rule: andThen_cases)
    case (stop x)
    then show ?thesis using start by (auto intro: forEach_always [where I = ?U] u1)
  next
    case (go v)
    then have v: "?U v" using start by (auto intro: forEach_always [where I = ?U] u1)
    from go(2) show ?thesis
    proof (cases rule: andThen_cases)
      case (stop x)
      then show ?thesis using v by (auto intro: forEach_always [where I = ?U] u2)
    next
      case (go u)
      then have "?U u" using v by (auto intro: forEach_always [where I = ?U] u2)
      with go(2) show ?thesis by (auto intro: forEach_always [where I = ?U] u3)
    qed
  qed
  then have part1: "CallRemoveContainer n \<notin> set (callsSince w w') \<and> maps w' cs n = Some r"
    by (auto simp: undesired_def callsSince_def)
  have part2: "e \<noteq> None" if visit: "n \<in> set ks3"
  proof
    assume "e = None"
    with all obtain v where s1: "?P1 w = (None, v)" and "andThen ?P2 ?P3 v = (None, w')"
      by (blast dest: andThen_None)
    then obtain u where s2: "?P2 v = (None, u)" and s3: "?P3 u = (None, w')"
      by (blast dest: andThen_None)
    from s1 start have "?U v" by (rule forEach_always) (rule u1)
    with s2 have "?U u" by (rule forEach_always) (rule u2)
    with s3 visit have "False"
    proof (rule forEach_reaches [where I = ?U and B = "\<lambda>_. False"])
      fix k x x1 assume "?U x" "pass3Body E cs ?ds k x = (None, x1)"
      then show "?U x1" by (rule u3)
    next
      fix x x1 assume "?U x" "pass3Body E cs ?ds n x = (None, x1)"
      then show False using undesired_pass3 by blast
    qed simp
    then show False .
  qed
  from part1 part2 show ?thesis by blast
qed


section \<open>File drift alone\<close>

lemma clearjunk_lookup: "(p, c) \<in> set (AList.clearjunk m) \<Longrightarrow> map_of m p = Some c"
  using map_of_is_SomeI [OF distinct_clearjunk, of p c m] by (simp add: map_of_clearjunk)

lemma filesToUpdate_cong:
  "configFiles r = configFiles r' \<Longrightarrow> filesToUpdate d (Some r) = filesToUpdate d (Some r')"
  by (simp add: filesToUpdate_def)

lemma filesToUpdate_same: "configFiles r = configFiles d \<Longrightarrow> filesToUpdate d (Some r) = []"
  by (auto simp: filesToUpdate_def filter_empty_conv dest: clearjunk_lookup)

lemma clearjunk_member: "map_of m p = Some c \<Longrightarrow> (p, c) \<in> set (AList.clearjunk m)"
  by (metis map_of_SomeD map_of_clearjunk)

text \<open>
  \<open>filesToUpdate\<close> lists every drifted file once, and nothing else; for a
  container that has no current state it lists every desired file.
\<close>

lemma filesToUpdate_distinct: "distinct (filesToUpdate d c)"
  by (cases c)
     (simp_all add: filesToUpdate_def KeysStringMap_def distinct_clearjunk distinct_map_filter)

lemma filesToUpdate_drifted: "set (filesToUpdate d (Some r)) = driftedFiles d r"
proof (rule set_eqI)
  fix p
  let ?differs = "\<lambda>(p, content). case map_of (configFiles r) p of
                         None \<Rightarrow> True
                       | Some currentContent \<Rightarrow> content \<noteq> currentContent"
  have "p \<in> set (filesToUpdate d (Some r)) \<longleftrightarrow>
        (\<exists>c. (p, c) \<in> set (AList.clearjunk (configFiles d)) \<and> ?differs (p, c))"
    by (force simp: filesToUpdate_def)
  also have "\<dots> \<longleftrightarrow> (\<exists>c. map_of (configFiles d) p = Some c \<and> ?differs (p, c))"
    by (blast dest: clearjunk_lookup clearjunk_member)
  also have "\<dots> \<longleftrightarrow> p \<in> driftedFiles d r"
    by (auto simp: driftedFiles_def split: option.splits)
  finally show "p \<in> set (filesToUpdate d (Some r)) \<longleftrightarrow> p \<in> driftedFiles d r" .
qed

lemma filesToUpdate_all: "set (filesToUpdate d None) = dom (map_of (configFiles d))"
  by (simp add: filesToUpdate_def KeysStringMap_def dom_map_of_conv_image_fst [symmetric]
        map_of_clearjunk dom_clearjunk)

lemma hcc_configFiles_same [simp]: "h\<lparr>configFiles := configFiles h\<rparr> = (h :: hcc)"
  by simp

lemma ensureConfigured_present:
  assumes "maps w ds n = Some d" and "maps w cs n = Some r"
  shows "ensureConfigured E cs ds n w =
     (let F = filesToUpdate (objs w d) (Some (objs w r));
          w1 = w\<lparr>trace := trace w @ [CallConfigure d F]\<rparr>
      in if fails E (trace w) (CallConfigure d F)
         then (Some (Wrapped ''failed creating config files'' (Failed (CallConfigure d F))), w1)
         else (None, updObj r (\<lambda>h. h\<lparr>configFiles := configFiles (objs w d)\<rparr>) w1))"
  using assms
  by (simp add: ensureConfigured_def Configure_def prim_def andThen_def wrapErr_def Let_def updObj_def)

lemma ensureConfigured_drift:
  assumes inv: "driftInv nm cs ds n r d w0 b w"
    and run: "ensureConfigured E cs ds n w = (e, w')"
  shows "(e = None \<longrightarrow> driftInv nm cs ds n r d w0 True w') \<and> driftPost nm cs ds n r d w0 w'"
proof -
  let ?D = "filesToUpdate (objs w0 d) (Some (objs w0 r))"
  let ?F = "filesToUpdate (objs w d) (Some (objs w r))"
  let ?w1 = "w\<lparr>trace := trace w @ [CallConfigure d ?F]\<rparr>"
  from inv have m: "maps w ds n = Some d" "maps w cs n = Some r" and o: "owned nm cs ds w"
    and d: "objs w d = objs w0 d"
    and r: "host (objs w r) = host (objs w0 r)" "config (objs w r) = config (objs w0 r)"
           "status (objs w r) = status (objs w0 r)"
    by (simp_all add: driftInv_def)
  from o m have nd: "nm d = n" by (simp add: owned_def)
  from inv obtain t where t: "trace w = trace w0 @ t"
    "\<forall>k \<in> set t. belongs nm n k \<longrightarrow> (\<exists>fs. k = CallConfigure d fs)"
    "if b then filesWritten d t = ?D \<and> configFiles (objs w r) = configFiles (objs w0 d)
     else filesWritten d t = [] \<and> configFiles (objs w r) = configFiles (objs w0 r)"
    unfolding driftInv_def by blast
  have F: "?F = (if b then [] else ?D)"
  proof (cases b)
    case True
    with t(3) d have "configFiles (objs w r) = configFiles (objs w d)" by simp
    then show ?thesis using True by (simp add: filesToUpdate_same)
  next
    case False
    with t(3) have "configFiles (objs w r) = configFiles (objs w0 r)" by simp
    then have "?F = filesToUpdate (objs w d) (Some (objs w0 r))" by (rule filesToUpdate_cong)
    then show ?thesis using False d by simp
  qed
  have tr: "trace ?w1 = trace w0 @ (t @ [CallConfigure d ?F])"
    using t(1) by simp
  have only: "\<forall>k \<in> set (t @ [CallConfigure d ?F]). belongs nm n k \<longrightarrow> (\<exists>fs. k = CallConfigure d fs)"
    using t(2) by auto
  have fw: "filesWritten d (t @ [CallConfigure d ?F]) = ?D"
    using t(3) F by (cases b) (simp_all add: filesWritten_def)
  from run m have res: "(e, w') =
     (if fails E (trace w) (CallConfigure d ?F)
         then (Some (Wrapped ''failed creating config files'' (Failed (CallConfigure d ?F))), ?w1)
         else (None, updObj r (\<lambda>h. h\<lparr>configFiles := configFiles (objs w d)\<rparr>) ?w1))"
    by (simp add: ensureConfigured_present Let_def)
  show ?thesis
  proof (cases "fails E (trace w) (CallConfigure d ?F)")
    case True
    with res have e: "e \<noteq> None" and w': "w' = ?w1" by simp_all
    have "driftPost nm cs ds n r d w0 ?w1"
      unfolding driftPost_def using m d r tr only fw by (auto simp del: filesWritten_append)
    with e w' show ?thesis by auto
  next
    case False
    with res have e: "e = None"
      and w': "w' = updObj r (\<lambda>h. h\<lparr>configFiles := configFiles (objs w d)\<rparr>) ?w1" by simp_all
    have od: "objs w' d = objs w0 d"
      using w' d t(3) by (cases "d = r") (auto simp: updObj_def)
    have "driftInv nm cs ds n r d w0 True w'"
      unfolding driftInv_def
      using m d r tr only fw o od by (auto simp: w' updObj_def owned_def simp del: filesWritten_append)
    with e show ?thesis by (simp add: driftInv_Post)
  qed
qed


lemma wrapErr_None [simp]: "(wrapErr msg f w = (None, v)) = (f w = (None, v))"
  by (auto simp: wrapErr_def split: prod.splits option.splits)

lemma wrapErr_Some: "wrapErr msg f w = (Some x, v) \<Longrightarrow> \<exists>y. f w = (Some y, v)"
  by (auto simp: wrapErr_def split: prod.splits option.splits)

lemma wrapErr_post:
  assumes "wrapErr msg f w = (e, v)"
    and "\<And>e1. f w = (e1, v) \<Longrightarrow> (e1 = None \<longrightarrow> I v) \<and> Q v"
  shows "(e = None \<longrightarrow> I v) \<and> Q v"
  using assms by (cases e) (auto dest: wrapErr_Some)

lemma wrapErr_ok: "f w = (None, v) \<Longrightarrow> wrapErr msg f w = (None, v)"
  by simp

lemma andThen_ok: "f w = (None, v) \<Longrightarrow> andThen f g w = g v"
  by (simp add: andThen_def)

lemma pass1Body_drift:
  assumes "driftInv nm cs ds n r d w0 b w" and "Exists (objs w0 r)" and "IsRunning (objs w0 r)"
  shows "pass1Body E cs n w = (None, w)"
  using assms
  by (simp add: driftInv_def pass1Body_def ensureRunning_def Exists_def IsRunning_def)

lemma ensureExists_drift:
  assumes "driftInv nm cs ds n r d w0 b w" and "Exists (objs w0 r)"
  shows "ensureExists E cs ds n w = (None, w)"
  using assms by (simp add: driftInv_def ensureExists_def Exists_def)

lemma ensureHost_drift:
  assumes "driftInv nm cs ds n r d w0 b w" and "host (objs w0 r) = host (objs w0 d)"
  shows "ensureHost E cs ds n w = (None, w)"
  using assms by (simp add: driftInv_def ensureHost_def diffHost_def isUpdatable_def cmp_Diff_def)

lemma ensureContainer_drift:
  assumes "driftInv nm cs ds n r d w0 b w" and "config (objs w0 r) = config (objs w0 d)"
  shows "ensureContainer E cs ds n w = (None, w)"
  using assms
  by (simp add: driftInv_def ensureContainer_def diffContainer_def isUpdatable_def cmp_Diff_def)

lemma removeUndesired_drift:
  assumes "driftInv nm cs ds n r d w0 b w"
  shows "removeUndesired E cs ds n w = (None, w)"
  using assms by (simp add: driftInv_def removeUndesired_def)

lemma pass2Body_drift:
  assumes inv: "driftInv nm cs ds n r d w0 b w" and ex: "Exists (objs w0 r)"
    and run: "pass2Body E cs ds n w = (e, w')"
  shows "(e = None \<longrightarrow> driftInv nm cs ds n r d w0 True w') \<and> driftPost nm cs ds n r d w0 w'"
proof -
  from inv have "maps w ds n = Some d" by (simp add: driftInv_def)
  with run have "andThen (wrapErr ''failed configuring container'' (ensureConfigured E cs ds n))
                  (wrapErr ''failed creating new container'' (ensureExists E cs ds n)) w = (e, w')"
    by (simp add: pass2Body_def)
  then show ?thesis
  proof (cases rule: andThen_cases)
    case (stop x)
    then show ?thesis
      using ensureConfigured_drift [OF inv] by (auto dest!: wrapErr_Some)
  next
    case (go v)
    then have v: "driftInv nm cs ds n r d w0 True v"
      using ensureConfigured_drift [OF inv] by auto
    from ensureExists_drift [OF v ex, of E] go(2) have "e = None" "w' = v"
      by (simp_all add: wrapErr_ok)
    with v show ?thesis by (simp add: driftInv_Post)
  qed
qed

lemma pass3Body_drift:
  assumes inv: "driftInv nm cs ds n r d w0 b w"
    and same: "host (objs w0 r) = host (objs w0 d)" "config (objs w0 r) = config (objs w0 d)"
    and run: "pass3Body E cs ds n w = (e, w')"
  shows "(e = None \<longrightarrow> driftInv nm cs ds n r d w0 True w') \<and> driftPost nm cs ds n r d w0 w'"
proof -
  from inv have "maps w cs n = Some r" by (simp add: driftInv_def)
  with run ensureHost_drift [OF inv same(1), of E]
  have "andThen (wrapErr ''failed updating configuration for container''
                        (ensureConfigured E cs ds n))
               (andThen (wrapErr ''failed updating container'' (ensureContainer E cs ds n))
                        (removeUndesired E cs ds n)) w = (e, w')"
    by (simp add: pass3Body_def wrapErr_ok andThen_ok)
  then show ?thesis
  proof (cases rule: andThen_cases)
    case (stop x)
    then show ?thesis
      using ensureConfigured_drift [OF inv] by (auto dest!: wrapErr_Some)
  next
    case (go v)
    then have v: "driftInv nm cs ds n r d w0 True v"
      using ensureConfigured_drift [OF inv] by auto
    from go(2) ensureContainer_drift [OF v same(2), of E] removeUndesired_drift [OF v, of E]
    have "e = None" "w' = v" by (simp_all add: wrapErr_ok andThen_ok)
    with v show ?thesis by (simp add: driftInv_Post)
  qed
qed

text \<open>The invariant of the loops: the files are in some state, or already written.\<close>

lemma driftSome_pass1:
  assumes "\<exists>b. (b0 \<longrightarrow> b) \<and> driftInv nm cs ds n r d w0 b w"
    and "Exists (objs w0 r)" and "IsRunning (objs w0 r)"
    and "pass1Body E cs k w = (e, w')"
  shows "(e = None \<longrightarrow> (\<exists>b. (b0 \<longrightarrow> b) \<and> driftInv nm cs ds n r d w0 b w')) \<and>
         driftPost nm cs ds n r d w0 w'"
proof -
  from assms(1) obtain b where b: "b0 \<longrightarrow> b" "driftInv nm cs ds n r d w0 b w" by blast
  show ?thesis
  proof (cases "k = n")
    case True
    with pass1Body_drift [OF b(2) assms(2,3), of E] assms(4) have "e = None" "w' = w" by simp_all
    with b show ?thesis by (auto simp: driftInv_Post)
  next
    case False
    from b(2) have "owned nm cs ds w" by (simp add: driftInv_def)
    then have "within nm cs ds k w w'" using assms(4) by (rule within_pass1Body)
    from driftInv_other [OF b(2) this False] b(1) show ?thesis by (auto simp: driftInv_Post)
  qed
qed

lemma driftSome_pass2:
  assumes "\<exists>b. (b0 \<longrightarrow> b) \<and> driftInv nm cs ds n r d w0 b w"
    and "Exists (objs w0 r)"
    and "pass2Body E cs ds k w = (e, w')"
  shows "(e = None \<longrightarrow> (\<exists>b. (b0 \<or> k = n \<longrightarrow> b) \<and> driftInv nm cs ds n r d w0 b w')) \<and>
         driftPost nm cs ds n r d w0 w'"
proof -
  from assms(1) obtain b where b: "b0 \<longrightarrow> b" "driftInv nm cs ds n r d w0 b w" by blast
  show ?thesis
  proof (cases "k = n")
    case True
    with pass2Body_drift [OF b(2) assms(2), of E e w'] assms(3) show ?thesis by auto
  next
    case False
    from b(2) have "owned nm cs ds w" by (simp add: driftInv_def)
    then have "within nm cs ds k w w'" using assms(3) by (rule within_pass2Body)
    from driftInv_other [OF b(2) this False] b(1) False show ?thesis by (auto simp: driftInv_Post)
  qed
qed

lemma driftSome_pass3:
  assumes "\<exists>b. (b0 \<longrightarrow> b) \<and> driftInv nm cs ds n r d w0 b w"
    and "host (objs w0 r) = host (objs w0 d)" "config (objs w0 r) = config (objs w0 d)"
    and "pass3Body E cs ds k w = (e, w')"
  shows "(e = None \<longrightarrow> (\<exists>b. (b0 \<longrightarrow> b) \<and> driftInv nm cs ds n r d w0 b w')) \<and>
         driftPost nm cs ds n r d w0 w'"
proof -
  from assms(1) obtain b where b: "b0 \<longrightarrow> b" "driftInv nm cs ds n r d w0 b w" by blast
  show ?thesis
  proof (cases "k = n")
    case True
    with pass3Body_drift [OF b(2) assms(2,3), of E e w'] assms(4) show ?thesis by auto
  next
    case False
    from b(2) have "owned nm cs ds w" by (simp add: driftInv_def)
    then have "within nm cs ds k w w'" using assms(4) by (rule within_pass3Body)
    from driftInv_other [OF b(2) this False] b(1) show ?thesis by (auto simp: driftInv_Post)
  qed
qed


lemma driftInv_start:
  assumes "owned nm cs ds w" and "maps w cs n = Some r" and "maps w ds n = Some d"
  shows "driftInv nm cs ds n r d w False w"
  using assms by (simp add: driftInv_def filesWritten_def)

lemma drift_summary:
  assumes post: "driftPost nm cs ds n r d w0 w'" and r: "nm r = n" and d: "nm d = n"
  shows "maps w' cs n = Some r \<and> maps w' ds n = Some d \<and>
         host (objs w' r) = host (objs w0 r) \<and> config (objs w' r) = config (objs w0 r) \<and>
         status (objs w' r) = status (objs w0 r) \<and> objs w' d = objs w0 d \<and>
         (\<exists>t. trace w' = trace w0 @ t \<and>
              CallCreateAndStart n \<notin> set t \<and> CallRemoveContainer n \<notin> set t \<and>
              CallStart r \<notin> set t \<and> CallStart d \<notin> set t \<and>
              (\<forall>fs. CallConfigure r fs \<in> set t \<longrightarrow> r = d) \<and>
              (filesWritten d t = [] \<or>
               filesWritten d t = filesToUpdate (objs w0 d) (Some (objs w0 r))))"
proof -
  from post obtain t where t: "trace w' = trace w0 @ t"
    "\<forall>k \<in> set t. belongs nm n k \<longrightarrow> (\<exists>fs. k = CallConfigure d fs)"
    "filesWritten d t = [] \<or> filesWritten d t = filesToUpdate (objs w0 d) (Some (objs w0 r))"
    unfolding driftPost_def by blast
  from t(2) r d have "CallCreateAndStart n \<notin> set t" "CallRemoveContainer n \<notin> set t"
    "CallStart r \<notin> set t" "CallStart d \<notin> set t" "\<forall>fs. CallConfigure r fs \<in> set t \<longrightarrow> r = d"
    by fastforce+
  with t(1,3) post show ?thesis unfolding driftPost_def by blast
qed

text \<open>
  Claim C5, for a container that exists and runs. \<open>n\<close> is in the current state
  (object \<open>r\<close>) and in the desired state (object \<open>d\<close>), with equal host and
  equal container configuration. Whatever \<open>Execute\<close> returns: no
  \<open>CreateAndStart\<close> and no \<open>RemoveContainer\<close> is issued for \<open>n\<close>, no \<open>Start\<close> for
  its objects, no file is written twice, the files written for it are none or
  exactly the drifted ones (the desired files that the current container lacks
  or has with another content), the entry is the same object with the same
  host, configuration and status, and the desired object is unchanged. When
  \<open>Execute\<close> succeeds and Pass 2 has visited \<open>n\<close>, exactly the drifted files
  were written and the recorded files are the desired ones.
\<close>

theorem Execute_file_drift_only:
  assumes cur: "currentState c = Some cs" and own: "owned nm cs (desiredState c) w"
    and r: "maps w cs n = Some r" and d: "maps w (desiredState c) n = Some d"
    and same: "host (objs w r) = host (objs w d)" "config (objs w r) = config (objs w d)"
    and live: "Exists (objs w r)" "IsRunning (objs w r)"
    and run: "Execute E ks1 ks2 ks3 c w = (e, w')"
  shows "maps w' cs n = Some r \<and> maps w' (desiredState c) n = Some d \<and>
         host (objs w' r) = host (objs w r) \<and> config (objs w' r) = config (objs w r) \<and>
         status (objs w' r) = status (objs w r) \<and> objs w' d = objs w d \<and>
         (\<exists>t. trace w' = trace w @ t \<and>
              CallCreateAndStart n \<notin> set t \<and> CallRemoveContainer n \<notin> set t \<and>
              CallStart r \<notin> set t \<and> CallStart d \<notin> set t \<and>
              (\<forall>fs. CallConfigure r fs \<in> set t \<longrightarrow> r = d) \<and>
              distinct (filesWritten d t) \<and>
              (filesWritten d t = [] \<or>
               set (filesWritten d t) = driftedFiles (objs w d) (objs w r))) \<and>
         (e = None \<and> n \<in> set ks2 \<longrightarrow>
            distinct (filesWritten d (callsSince w w')) \<and>
            set (filesWritten d (callsSince w w')) = driftedFiles (objs w d) (objs w r) \<and>
            configFiles (objs w' r) = configFiles (objs w d))"
proof -
  let ?ds = "desiredState c"
  let ?J = "\<lambda>b0 v. \<exists>b. (b0 \<longrightarrow> b) \<and> driftInv nm cs ?ds n r d w b v"
  let ?Q = "driftPost nm cs ?ds n r d w"
  let ?P1 = "forEach (pass1Body E cs) ks1"
  let ?P2 = "forEach (pass2Body E cs ?ds) ks2"
  let ?P3 = "forEach (pass3Body E cs ?ds) ks3"
  from own r d have nr: "nm r = n" and nd: "nm d = n" by (simp_all add: owned_def)
  have start: "?J False w"
    using driftInv_start [OF own r d] by blast
  have p1: "(e1 = None \<longrightarrow> ?J b0 v1) \<and> ?Q v1" if "?J b0 v" "?P1 v = (e1, v1)" for b0 v e1 v1
    using that(2,1)
  proof (rule forEach_invariant)
    fix k u e2 u1 assume "?J b0 u" "pass1Body E cs k u = (e2, u1)"
    from driftSome_pass1 [OF this(1) live this(2)]
    show "(e2 = None \<longrightarrow> ?J b0 u1) \<and> ?Q u1" .
  next
    fix u assume "?J b0 u"
    then show "?Q u" by (blast intro: driftInv_Post)
  qed
  have p2: "(e1 = None \<longrightarrow> ?J b0 v1) \<and> ?Q v1" if "?J b0 v" "?P2 v = (e1, v1)" for b0 v e1 v1
    using that(2,1)
  proof (rule forEach_invariant)
    fix k u e2 u1 assume "?J b0 u" "pass2Body E cs ?ds k u = (e2, u1)"
    from driftSome_pass2 [OF this(1) live(1) this(2)]
    show "(e2 = None \<longrightarrow> ?J b0 u1) \<and> ?Q u1" by blast
  next
    fix u assume "?J b0 u"
    then show "?Q u" by (blast intro: driftInv_Post)
  qed
  have p3: "(e1 = None \<longrightarrow> ?J b0 v1) \<and> ?Q v1" if "?J b0 v" "?P3 v = (e1, v1)" for b0 v e1 v1
    using that(2,1)
  proof (rule forEach_invariant)
    fix k u e2 u1 assume "?J b0 u" "pass3Body E cs ?ds k u = (e2, u1)"
    from driftSome_pass3 [OF this(1) same this(2)]
    show "(e2 = None \<longrightarrow> ?J b0 u1) \<and> ?Q u1" .
  next
    fix u assume "?J b0 u"
    then show "?Q u" by (blast intro: driftInv_Post)
  qed
  have reach: "?J True v1" if "?J False v" "?P2 v = (None, v1)" "n \<in> set ks2" for v v1
    using that(2,3,1)
  proof (rule forEach_reaches [where B = "?J True"])
    fix k u u1 assume "k \<noteq> n" "?J False u" "pass2Body E cs ?ds k u = (None, u1)"
    from driftSome_pass2 [OF this(2) live(1) this(3)] show "?J False u1" by blast
  next
    fix u u1 assume "?J False u" "pass2Body E cs ?ds n u = (None, u1)"
    from driftSome_pass2 [OF this(1) live(1) this(2)] show "?J True u1" by blast
  next
    fix k u u1 assume "?J True u" "pass2Body E cs ?ds k u = (None, u1)"
    from driftSome_pass2 [OF this(1) live(1) this(2)] show "?J True u1" by blast
  qed
  from run cur have all: "andThen ?P1 (andThen ?P2 ?P3) w = (e, w')"
    by (simp add: Execute_def)
  have post: "?Q w'" and fin: "e = None \<and> n \<in> set ks2 \<longrightarrow> driftInv nm cs ?ds n r d w True w'"
  proof -
    from all show "?Q w'"
    proof (cases rule: andThen_cases)
      case (stop x)
      with p1 [OF start] show ?thesis by blast
    next
      case (go v)
      with p1 [OF start] have v: "?J False v" by blast
      from go(2) show ?thesis
      proof (cases rule: andThen_cases)
        case (stop x)
        with p2 [OF v] show ?thesis by blast
      next
        case (go u)
        with p2 [OF v] have "?J False u" by blast
        with p3 go(2) show ?thesis by blast
      qed
    qed
    show "e = None \<and> n \<in> set ks2 \<longrightarrow> driftInv nm cs ?ds n r d w True w'"
    proof
      assume a: "e = None \<and> n \<in> set ks2"
      with all obtain v where s1: "?P1 w = (None, v)" "andThen ?P2 ?P3 v = (None, w')"
        by (blast dest: andThen_None)
      then obtain u where s2: "?P2 v = (None, u)" "?P3 u = (None, w')"
        by (blast dest: andThen_None)
      note s = s1(1) s2
      from p1 [OF start s(1)] have "?J False v" by blast
      from reach [OF this s(2)] a have "?J True u" by blast
      from p3 [OF this s(3)] show "driftInv nm cs ?ds n r d w True w'" by auto
    qed
  qed
  let ?F = "filesToUpdate (objs w d) (Some (objs w r))"
  have F: "distinct ?F" "set ?F = driftedFiles (objs w d) (objs w r)"
    by (rule filesToUpdate_distinct) (rule filesToUpdate_drifted)
  from drift_summary [OF post nr nd] obtain t where
    st: "maps w' cs n = Some r \<and> maps w' (desiredState c) n = Some d \<and>
         host (objs w' r) = host (objs w r) \<and> config (objs w' r) = config (objs w r) \<and>
         status (objs w' r) = status (objs w r) \<and> objs w' d = objs w d"
    and t: "trace w' = trace w @ t \<and>
              CallCreateAndStart n \<notin> set t \<and> CallRemoveContainer n \<notin> set t \<and>
              CallStart r \<notin> set t \<and> CallStart d \<notin> set t \<and>
              (\<forall>fs. CallConfigure r fs \<in> set t \<longrightarrow> r = d)"
    and wr: "filesWritten d t = [] \<or> filesWritten d t = ?F"
    by blast
  from wr F have "distinct (filesWritten d t) \<and>
      (filesWritten d t = [] \<or> set (filesWritten d t) = driftedFiles (objs w d) (objs w r))"
    by auto
  with t have part1: "\<exists>t. trace w' = trace w @ t \<and>
              CallCreateAndStart n \<notin> set t \<and> CallRemoveContainer n \<notin> set t \<and>
              CallStart r \<notin> set t \<and> CallStart d \<notin> set t \<and>
              (\<forall>fs. CallConfigure r fs \<in> set t \<longrightarrow> r = d) \<and>
              distinct (filesWritten d t) \<and>
              (filesWritten d t = [] \<or>
               set (filesWritten d t) = driftedFiles (objs w d) (objs w r))"
    by blast
  have part2: "e = None \<and> n \<in> set ks2 \<longrightarrow>
            distinct (filesWritten d (callsSince w w')) \<and>
            set (filesWritten d (callsSince w w')) = driftedFiles (objs w d) (objs w r) \<and>
            configFiles (objs w' r) = configFiles (objs w d)"
  proof
    assume "e = None \<and> n \<in> set ks2"
    with fin have "driftInv nm cs ?ds n r d w True w'" by blast
    then have "filesWritten d (callsSince w w') = ?F"
      "configFiles (objs w' r) = configFiles (objs w d)"
      by (auto simp: driftInv_def callsSince_def)
    with F show "distinct (filesWritten d (callsSince w w')) \<and>
            set (filesWritten d (callsSince w w')) = driftedFiles (objs w d) (objs w r) \<and>
            configFiles (objs w' r) = configFiles (objs w d)"
      by simp
  qed
  from st part1 part2 show ?thesis by blast
qed

theorem Execute_file_drift_only_witness:
  "currentState exChecked = Some 0 \<and>
   owned (\<lambda>a. ''a'') 0 (desiredState exChecked) (exWorld exSomeFiles exMoreFiles) \<and>
   maps (exWorld exSomeFiles exMoreFiles) 0 ''a'' = Some 0 \<and>
   maps (exWorld exSomeFiles exMoreFiles) (desiredState exChecked) ''a'' = Some 1 \<and>
   host (objs (exWorld exSomeFiles exMoreFiles) 0) =
     host (objs (exWorld exSomeFiles exMoreFiles) 1) \<and>
   config (objs (exWorld exSomeFiles exMoreFiles) 0) =
     config (objs (exWorld exSomeFiles exMoreFiles) 1) \<and>
   Exists (objs (exWorld exSomeFiles exMoreFiles) 0) \<and>
   IsRunning (objs (exWorld exSomeFiles exMoreFiles) 0) \<and>
   fst (Execute exQuiet [''a''] [''a''] [''a''] exChecked (exWorld exSomeFiles exMoreFiles)) =
     None \<and>
   ''a'' \<in> set [''a''] \<and>
   driftedFiles (objs (exWorld exSomeFiles exMoreFiles) 1)
     (objs (exWorld exSomeFiles exMoreFiles) 0) = {''/c.yaml'', ''/d.yaml''} \<and>
   set (filesWritten 1
          (callsSince (exWorld exSomeFiles exMoreFiles)
             (snd (Execute exQuiet [''a''] [''a''] [''a''] exChecked
                     (exWorld exSomeFiles exMoreFiles))))) = {''/c.yaml'', ''/d.yaml''} \<and>
   trace (snd (Execute exQuiet [''a''] [''a''] [''a''] exChecked
                 (exWorld exSomeFiles exMoreFiles))) =
     [CallConfigure 1 [''/c.yaml'', ''/d.yaml''], CallConfigure 1 []]"
proof -
  let ?w = "exWorld exSomeFiles exMoreFiles"
  let ?x = "Execute exQuiet [''a''] [''a''] [''a''] exChecked ?w"
  have cur: "currentState exChecked = Some 0" and ds: "desiredState exChecked = 1"
    by (simp_all add: exChecked_def)
  have own: "owned (\<lambda>a. ''a'') 0 (desiredState exChecked) ?w"
    by (auto simp: owned_def exWorld_def ds split: if_splits)
  have r: "maps ?w 0 ''a'' = Some 0" and d: "maps ?w (desiredState exChecked) ''a'' = Some 1"
    by (simp_all add: exWorld_def ds)
  have o: "objs ?w 0 = exSomeFiles" "objs ?w 1 = exMoreFiles"
    by (simp_all add: exWorld_def)
  have same: "host (objs ?w 0) = host (objs ?w 1)" "config (objs ?w 0) = config (objs ?w 1)"
    and live: "Exists (objs ?w 0)" "IsRunning (objs ?w 0)"
    unfolding o
    by (simp_all add: exSomeFiles_def exMoreFiles_def exRunning_def Exists_def IsRunning_def)
  have run: "?x = (fst ?x, snd ?x)" by simp
  have ok: "fst ?x = None" by code_simp
  have visit: "''a'' \<in> set [''a'']" by simp
  have tr: "trace (snd ?x) = [CallConfigure 1 [''/c.yaml'', ''/d.yaml''], CallConfigure 1 []]"
    by code_simp
  have drift: "driftedFiles (objs ?w 1) (objs ?w 0) = {''/c.yaml'', ''/d.yaml''}"
    unfolding o by (auto simp: driftedFiles_def exSomeFiles_def exMoreFiles_def split: if_splits)
  from Execute_file_drift_only [OF cur own r d same live run] ok visit
  have "set (filesWritten 1 (callsSince ?w (snd ?x))) = driftedFiles (objs ?w 1) (objs ?w 0)"
    by blast
  with cur own r d same live ok visit drift tr show ?thesis by simp
qed

text \<open>
  Claim C5 as stated fails for a container that is stopped. \<open>a\<close> is in the
  current and in the desired state with equal host and configuration, and its
  file \<open>/c.yaml\<close> has drifted; Pass 1 issues \<open>Start\<close> on it.
\<close>

theorem Execute_file_drift_stopped_counterexample:
  "maps (exWorld exOldFilesStopped exNewFiles) 0 ''a'' = Some 0 \<and>
   maps (exWorld exOldFilesStopped exNewFiles) 1 ''a'' = Some 1 \<and>
   host (objs (exWorld exOldFilesStopped exNewFiles) 0) =
     host (objs (exWorld exOldFilesStopped exNewFiles) 1) \<and>
   config (objs (exWorld exOldFilesStopped exNewFiles) 0) =
     config (objs (exWorld exOldFilesStopped exNewFiles) 1) \<and>
   configFiles (objs (exWorld exOldFilesStopped exNewFiles) 0) = [(''/c.yaml'', ''x'')] \<and>
   configFiles (objs (exWorld exOldFilesStopped exNewFiles) 1) = [(''/c.yaml'', ''y'')] \<and>
   fst (Execute exQuiet [''a''] [''a''] [''a''] exChecked
          (exWorld exOldFilesStopped exNewFiles)) = None \<and>
   trace (snd (Execute exQuiet [''a''] [''a''] [''a''] exChecked
                 (exWorld exOldFilesStopped exNewFiles))) =
     [CallStart 0, CallConfigure 1 [''/c.yaml''], CallConfigure 1 []]"
  by code_simp


section \<open>A container on the wrong host\<close>

lemma recreations_append [simp]: "recreations n (s @ t) = recreations n s @ recreations n t"
  by (simp add: recreations_def)


















section \<open>A second run on a settled state\<close>

lemma idle_refl [simp]: "idle w w"
  by (simp add: idle_def)



lemma idle_call:
  "benign k \<Longrightarrow> prim E k w = (e, v) \<Longrightarrow> idle w v"
  by (auto simp: prim_def idle_def)











section \<open>A successful run settles every name\<close>
























section \<open>Running Execute twice\<close>





section \<open>Properties of the PKI schema\<close>

lemma defaultKubeAPIServerServerCertificate_DNSNames:
  "DNSNames (defaultKubeAPIServerServerCertificate su k) =
     defaultDNSNames @ (case k of None \<Rightarrow> [] | Some ka \<Rightarrow> ExternalNames ka)"
  by (simp add: defaultKubeAPIServerServerCertificate_def split: option.split)

lemma defaultKubeAPIServerServerCertificate_IPAddresses:
  "IPAddresses (defaultKubeAPIServerServerCertificate su k) =
     ''127.0.0.1'' # (case k of None \<Rightarrow> [] | Some ka \<Rightarrow> ServerIPs ka)"
  by (simp add: defaultKubeAPIServerServerCertificate_def split: option.split)

text \<open>
  Claim C8. Whenever the API server section is present, the request built for
  the serving certificate exists and its chain holds a template whose DNS names
  are the six default names followed by the user's \<open>externalNames\<close> and
  whose IP addresses are \<open>127.0.0.1\<close> followed by the user's \<open>serverIPs\<close>; so
  every default stays in the template and every user-supplied entry is added.
\<close>

theorem kubeAPIServerServerCR_default_sans:
  assumes "kKubeAPIServer k = Some ka"
  shows "\<exists>k' cr. kubeAPIServerServerCR su k dc = Some (k', cr) \<and>
           (\<exists>t \<in> set (Certificates cr).
              DNSNames t = defaultDNSNames @ ExternalNames ka \<and>
              IPAddresses t = ''127.0.0.1'' # ServerIPs ka \<and>
              set [''localhost'', ''kubernetes'', ''kubernetes.default'',
                   ''kubernetes.default.svc'', ''kubernetes.default.svc.cluster'',
                   ''kubernetes.default.svc.cluster.local''] \<subseteq> set (DNSNames t) \<and>
              set (ExternalNames ka) \<subseteq> set (DNSNames t) \<and>
              ''127.0.0.1'' \<in> set (IPAddresses t) \<and>
              set (ServerIPs ka) \<subseteq> set (IPAddresses t))"
proof -
  let ?ka = "ka\<lparr>ServerCertificate :=
                 Some (case ServerCertificate ka of None \<Rightarrow> emptyCertificate | Some c \<Rightarrow> c)\<rparr>"
  let ?t = "defaultKubeAPIServerServerCertificate su (Some ?ka)"
  have dns: "DNSNames ?t = defaultDNSNames @ ExternalNames ka"
    by (simp add: defaultKubeAPIServerServerCertificate_DNSNames)
  have ips: "IPAddresses ?t = ''127.0.0.1'' # ServerIPs ka"
    by (simp add: defaultKubeAPIServerServerCertificate_IPAddresses)
  have sub: "set [''localhost'', ''kubernetes'', ''kubernetes.default'',
                   ''kubernetes.default.svc'', ''kubernetes.default.svc.cluster'',
                   ''kubernetes.default.svc.cluster.local''] \<subseteq> set (DNSNames ?t)"
    unfolding dns defaultDNSNames_def by simp
  obtain k' cr where run: "kubeAPIServerServerCR su k dc = Some (k', cr)"
    and mem: "?t \<in> set (Certificates cr)"
    using assms by (simp add: kubeAPIServerServerCR_def Let_def)
  have ext: "set (ExternalNames ka) \<subseteq> set (DNSNames ?t)"
    unfolding dns by simp
  have loc: "''127.0.0.1'' \<in> set (IPAddresses ?t)"
    unfolding ips by simp
  have usr: "set (ServerIPs ka) \<subseteq> set (IPAddresses ?t)"
    unfolding ips by auto
  note all = dns ips sub ext loc usr
  from run mem all show ?thesis by blast
qed

theorem kubeAPIServerServerCR_default_sans_witness:
  "kKubeAPIServer exKubernetes = Some exKubeAPIServer \<and>
   (\<exists>k' cr. kubeAPIServerServerCR [] exKubernetes emptyCertificate = Some (k', cr) \<and>
      (\<exists>t \<in> set (Certificates cr).
         DNSNames t = defaultDNSNames @ [''api.example.com''] \<and>
         IPAddresses t = [''127.0.0.1'', ''10.0.0.1'']))"
proof -
  have h: "kKubeAPIServer exKubernetes = Some exKubeAPIServer"
    by (simp add: exKubernetes_def)
  have e: "ExternalNames exKubeAPIServer = [''api.example.com'']"
    and i: "ServerIPs exKubeAPIServer = [''10.0.0.1'']"
    by (simp_all add: exKubeAPIServer_def)
  from kubeAPIServerServerCR_default_sans [OF h, of "[]" emptyCertificate] h
  show ?thesis unfolding e i by blast
qed

end
